theory Spec2Isabelle
  imports Main
begin

section \<open>The concurrent scheduler of ConcurrentScheduler.js\<close>

text \<open>
  The class \<^verbatim>\<open>ConcurrentScheduler\<close> has four fields (\<^verbatim>\<open>maxConcurrent\<close>,
  \<^verbatim>\<open>runningCount\<close>, \<^verbatim>\<open>taskQueue\<close>, \<^verbatim>\<open>taskId\<close>) and three methods
  (\<^verbatim>\<open>addTask\<close>, \<^verbatim>\<open>executeNext\<close>, \<^verbatim>\<open>getStatus\<close>). Its methods run to completion on
  the single JavaScript thread; the only asynchrony is the promise chain that
  \<^verbatim>\<open>executeNext\<close> builds for a dispatched task, whose handlers run later, one at a
  time. The embedding therefore has
  \<^item> one HOL function per method and per handler of the chain, passing the state
    explicitly;
  \<^item> the part of the JavaScript heap the methods share with their callers and
    handlers: the promises made by \<^verbatim>\<open>addTask\<close> and the chains made by
    \<^verbatim>\<open>executeNext\<close>;
  \<^item> a step function over the events that can happen to a scheduler, and the
    runs of event lists from a freshly constructed scheduler.

  Numbers are modelled as \<open>int\<close>: the counters of the class only ever hold
  integers (they start at 0 and change by 1), and a JavaScript number is an exact
  integer as long as its magnitude stays below \<open>2 ^ 53\<close>. For the id counter,
  which only grows, the behaviour of the code at \<open>2 ^ 53\<close> is modelled as well
  (\<open>incrementTaskId\<close>), and the theorem on ids is stated within that range. The bound
  \<open>maxConcurrent\<close> is taken to be an integer of either sign, as the class is
  meant to be used; the constructor itself accepts any value. The two calls of
  \<^verbatim>\<open>console.log\<close> write to the console and touch no field; they are left out.
\<close>

subsection \<open>Data\<close>

text \<open>The four values the code assigns to the \<^verbatim>\<open>status\<close> field of a task wrapper.\<close>

datatype status = Pending | Running | Completed | Failed

text \<open>
  A call of one of the two settling functions of a promise: \<^verbatim>\<open>resolve(v)\<close> or
  \<^verbatim>\<open>reject(e)\<close>. A promise of the store is the list of the calls it has received,
  oldest first; JavaScript lets the first call decide the state of the promise
  and ignores the later ones.
\<close>

datatype ('v, 'e) settlement = Resolved 'v | Rejected 'e

datatype ('v, 'e) promiseState = Unsettled | FulfilledWith 'v | RejectedWith 'e

fun stateOf :: "('v, 'e) settlement list \<Rightarrow> ('v, 'e) promiseState" where
  "stateOf [] = Unsettled"
| "stateOf (Resolved v # _) = FulfilledWith v"
| "stateOf (Rejected e # _) = RejectedWith e"

text \<open>
  The object \<^verbatim>\<open>taskWrapper\<close> of \<^verbatim>\<open>addTask\<close>. Its fields \<^verbatim>\<open>resolve\<close> and
  \<^verbatim>\<open>reject\<close> are the two settling functions of the promise that \<^verbatim>\<open>addTask\<close>
  returns; the wrapper holds them as \<open>handle\<close>, the position of that promise in
  the store. The task itself is opaque: the scheduler only calls it.
\<close>

record 't taskWrapper =
  id_t :: int
  task :: 't
  handle :: nat
  status :: status

text \<open>
  One promise chain built by \<^verbatim>\<open>executeNext\<close>: the variable \<^verbatim>\<open>nextTask\<close> its
  handlers close over, the outcome of \<^verbatim>\<open>nextTask.task()\<close> once it is known to the
  chain (\<open>Inr\<close> the produced value, \<open>Inl\<close> the error), and whether the handler of
  \<^verbatim>\<open>.finally\<close> has run.
\<close>

record ('t, 'v, 'e) chain =
  nextTask :: "'t taskWrapper"
  settled :: "('e + 'v) option"
  finalized :: bool

text \<open>
  The scheduler object (the first four fields) together with the promises made by
  \<^verbatim>\<open>addTask\<close> and the chains made by \<^verbatim>\<open>executeNext\<close>, both in the order of their
  creation.
\<close>

record ('t, 'v, 'e) scheduler =
  maxConcurrent :: int
  runningCount :: int
  taskQueue :: "'t taskWrapper list"
  taskId :: int
  promises :: "('v, 'e) settlement list list"
  dispatched :: "('t, 'v, 'e) chain list"

text \<open>The object that \<^verbatim>\<open>getStatus\<close> returns.\<close>

record snapshot =
  s_maxConcurrent :: int
  s_running :: int
  s_waiting :: nat
  s_tasks :: "(int \<times> status) list"

subsection \<open>The methods\<close>

text \<open>
  \<^verbatim>\<open>constructor(maxConcurrent = 3)\<close>: the default applies when the argument is
  absent (\<open>None\<close>). The body is four assignments; nothing is checked.
\<close>

definition constructor :: "int option \<Rightarrow> ('t, 'v, 'e) scheduler" where
  "constructor m =
     \<lparr> maxConcurrent = (case m of None \<Rightarrow> 3 | Some n \<Rightarrow> n),
       runningCount = 0,
       taskQueue = [],
       taskId = 0,
       promises = [],
       dispatched = [] \<rparr>"

text \<open>
  The expression \<^verbatim>\<open>new ConcurrentScheduler(m)\<close> as a result: \<open>Inl\<close> would be
  an error thrown by the constructor. Its body has no \<^verbatim>\<open>throw\<close> and calls
  nothing, so the expression always completes with the new object.
\<close>

datatype ConstructionError = ConstructionError

definition new_ConcurrentScheduler ::
  "int option \<Rightarrow> ConstructionError + ('t, 'v, 'e) scheduler" where
  "new_ConcurrentScheduler m = Inr (constructor m)"

text \<open>
  The synchronous part of \<^verbatim>\<open>executeNext\<close>: the two early returns, then
  \<^verbatim>\<open>shift\<close>, the increment, the status and the new chain, none of whose handlers
  has run yet.
\<close>

definition executeNext :: "('t, 'v, 'e) scheduler \<Rightarrow> ('t, 'v, 'e) scheduler" where
  "executeNext s =
     (if runningCount s \<ge> maxConcurrent s then s
      else case taskQueue s of
        [] \<Rightarrow> s
      | w # rest \<Rightarrow>
          s \<lparr> taskQueue := rest,
              runningCount := runningCount s + 1,
              dispatched := dispatched s @
                [\<lparr> nextTask = w \<lparr> status := Running \<rparr>, settled = None, finalized = False \<rparr>] \<rparr>)"

text \<open>
  \<^verbatim>\<open>addTask(task)\<close>: a new promise enters the store, the executor runs at once
  (\<^verbatim>\<open>++this.taskId\<close>, the wrapper, \<^verbatim>\<open>push\<close>, \<^verbatim>\<open>executeNext\<close>), and the promise is
  returned. The value the executor returns is ignored by JavaScript.
\<close>

definition addTask :: "'t \<Rightarrow> ('t, 'v, 'e) scheduler \<Rightarrow> nat \<times> ('t, 'v, 'e) scheduler" where
  "addTask t s =
     (let p = length (promises s);
          s1 = s \<lparr> promises := promises s @ [[]] \<rparr>;
          s2 = s1 \<lparr> taskId := taskId s1 + 1 \<rparr>;
          taskWrapper = \<lparr> id_t = taskId s2, task = t, handle = p, status = Pending \<rparr>;
          s3 = s2 \<lparr> taskQueue := taskQueue s2 @ [taskWrapper] \<rparr>
      in (p, executeNext s3))"



text \<open>
  The handler of \<^verbatim>\<open>.then(result => ...)\<close> of chain \<open>k\<close>: it runs when the task has
  produced \<open>result\<close>, sets the status and calls \<^verbatim>\<open>resolve\<close>.
\<close>

definition onFulfilled :: "nat \<Rightarrow> 'v \<Rightarrow> ('t, 'v, 'e) scheduler \<Rightarrow> ('t, 'v, 'e) scheduler" where
  "onFulfilled k result s =
     (let c = dispatched s ! k;
          w = (nextTask c) \<lparr> status := Completed \<rparr>
      in s \<lparr> dispatched := (dispatched s) [k := c \<lparr> nextTask := w, settled := Some (Inr result) \<rparr>],
             promises := (promises s) [handle w := promises s ! handle w @ [Resolved result]] \<rparr>)"

text \<open>
  The handler of \<^verbatim>\<open>.catch(error => ...)\<close> of chain \<open>k\<close>: it runs when the task has
  failed with \<open>error\<close>, sets the status and calls \<^verbatim>\<open>reject\<close>.
\<close>

definition onRejected :: "nat \<Rightarrow> 'e \<Rightarrow> ('t, 'v, 'e) scheduler \<Rightarrow> ('t, 'v, 'e) scheduler" where
  "onRejected k error s =
     (let c = dispatched s ! k;
          w = (nextTask c) \<lparr> status := Failed \<rparr>
      in s \<lparr> dispatched := (dispatched s) [k := c \<lparr> nextTask := w, settled := Some (Inl error) \<rparr>],
             promises := (promises s) [handle w := promises s ! handle w @ [Rejected error]] \<rparr>)"

text \<open>
  The handler of \<^verbatim>\<open>.finally(...)\<close> of chain \<open>k\<close>: the decrement, then
  \<^verbatim>\<open>executeNext\<close>.
\<close>

definition onFinally :: "nat \<Rightarrow> ('t, 'v, 'e) scheduler \<Rightarrow> ('t, 'v, 'e) scheduler" where
  "onFinally k s =
     executeNext
       (s \<lparr> runningCount := runningCount s - 1,
            dispatched := (dispatched s) [k := (dispatched s ! k) \<lparr> finalized := True \<rparr>] \<rparr>)"

text \<open>
  \<^verbatim>\<open>getStatus()\<close> reads the fields and builds a new object; it returns the
  snapshot and the state it leaves behind.
\<close>

definition getStatus :: "('t, 'v, 'e) scheduler \<Rightarrow> snapshot \<times> ('t, 'v, 'e) scheduler" where
  "getStatus s =
     (\<lparr> s_maxConcurrent = maxConcurrent s,
        s_running = runningCount s,
        s_waiting = length (taskQueue s),
        s_tasks = map (\<lambda>t. (id_t t, status t)) (taskQueue s) \<rparr>, s)"

subsection \<open>Events and runs\<close>

text \<open>
  What can happen to a scheduler: a caller submits a task; the task of chain \<open>k\<close>
  produces a value or fails, and the matching handler of the chain runs; the
  handler of \<^verbatim>\<open>.finally\<close> of chain \<open>k\<close> runs. The first handler of a chain, which
  calls the task, touches no field of the scheduler: when the task is called and
  when and how it settles is left to the environment, which supplies the outcome
  with the event. A handler of a chain runs only in its turn: \<^verbatim>\<open>.then\<close> or
  \<^verbatim>\<open>.catch\<close> once, for a chain whose task has not settled, and \<^verbatim>\<open>.finally\<close> once,
  after it. Between two handlers of one chain anything else may happen. An event
  that cannot happen in a state has no successor (\<open>None\<close>).
\<close>

datatype ('t, 'v, 'e) event =
    AddTask 't
  | TaskFulfils nat 'v
  | TaskFails nat 'e
  | Finally nat

fun step :: "('t, 'v, 'e) event \<Rightarrow> ('t, 'v, 'e) scheduler \<Rightarrow> ('t, 'v, 'e) scheduler option" where
  "step (AddTask t) s = Some (snd (addTask t s))"
| "step (TaskFulfils k v) s =
     (if k < length (dispatched s) \<and> settled (dispatched s ! k) = None
      then Some (onFulfilled k v s) else None)"
| "step (TaskFails k e) s =
     (if k < length (dispatched s) \<and> settled (dispatched s ! k) = None
      then Some (onRejected k e s) else None)"
| "step (Finally k) s =
     (if k < length (dispatched s) \<and> settled (dispatched s ! k) \<noteq> None \<and> \<not> finalized (dispatched s ! k)
      then Some (onFinally k s) else None)"

fun run :: "('t, 'v, 'e) scheduler \<Rightarrow> ('t, 'v, 'e) event list \<Rightarrow> ('t, 'v, 'e) scheduler option" where
  "run s [] = Some s"
| "run s (e # es) = (case step e s of None \<Rightarrow> None | Some s' \<Rightarrow> run s' es)"

text \<open>All task wrappers the scheduler has made, dispatched ones first.\<close>

definition records :: "('t, 'v, 'e) scheduler \<Rightarrow> 't taskWrapper list" where
  "records s = map nextTask (dispatched s) @ taskQueue s"

text \<open>The tasks that a list of events submits, in the order of submission.\<close>

fun submitted :: "('t, 'v, 'e) event list \<Rightarrow> 't list" where
  "submitted [] = []"
| "submitted (AddTask t # es) = t # submitted es"
| "submitted (_ # es) = submitted es"

fun isAddTask :: "('t, 'v, 'e) event \<Rightarrow> bool" where
  "isAddTask (AddTask _) = True"
| "isAddTask _ = False"

subsection \<open>Invariants of the reachable states\<close>

text \<open>
  What the calls on the settling functions of a task's promise must be, given the
  outcome of the task as its chain knows it; and the status its wrapper must have.
\<close>

fun mirror :: "('e + 'v) option \<Rightarrow> ('v, 'e) settlement list" where
  "mirror None = []"
| "mirror (Some (Inr v)) = [Resolved v]"
| "mirror (Some (Inl e)) = [Rejected e]"

fun statusOf :: "('e + 'v) option \<Rightarrow> status" where
  "statusOf None = Running"
| "statusOf (Some (Inr v)) = Completed"
| "statusOf (Some (Inl e)) = Failed"


definition inv_handles :: "('t, 'v, 'e) scheduler \<Rightarrow> bool" where
  "inv_handles s \<longleftrightarrow> map handle (records s) = [0..<length (promises s)]"

definition inv_status :: "('t, 'v, 'e) scheduler \<Rightarrow> bool" where
  "inv_status s \<longleftrightarrow>
     list_all (\<lambda>w. status w = Pending) (taskQueue s) \<and>
     list_all (\<lambda>c. status (nextTask c) = statusOf (settled c) \<and> (finalized c \<longrightarrow> settled c \<noteq> None))
       (dispatched s)"

definition inv_count :: "('t, 'v, 'e) scheduler \<Rightarrow> bool" where
  "inv_count s \<longleftrightarrow> runningCount s = int (length (filter (\<lambda>c. \<not> finalized c) (dispatched s)))"

definition inv_busy :: "('t, 'v, 'e) scheduler \<Rightarrow> bool" where
  "inv_busy s \<longleftrightarrow> (taskQueue s \<noteq> [] \<longrightarrow> maxConcurrent s \<le> runningCount s)"

definition inv_bound :: "('t, 'v, 'e) scheduler \<Rightarrow> bool" where
  "inv_bound s \<longleftrightarrow> runningCount s \<le> max 0 (maxConcurrent s)"

definition inv_mirror :: "('t, 'v, 'e) scheduler \<Rightarrow> bool" where
  "inv_mirror s \<longleftrightarrow>
     promises s = map (\<lambda>c. mirror (settled c)) (dispatched s) @ replicate (length (taskQueue s)) []"

subsection \<open>Scheduling view and remaining work\<close>

text \<open>
  What a state tells about scheduling once the outcomes of the tasks are
  forgotten: the four fields of the object, the number of promises, and of each
  chain its task, whether the task has settled and whether the chain is finished.
  Two events have the same shape when they differ at most in the outcome of a task.
\<close>

definition scheduling ::
  "('t, 'v, 'e) scheduler \<Rightarrow>
     int \<times> int \<times> 't taskWrapper list \<times> int \<times> nat \<times> (int \<times> 't \<times> nat \<times> bool \<times> bool) list" where
  "scheduling s =
     (maxConcurrent s, runningCount s, taskQueue s, taskId s, length (promises s),
      map (\<lambda>c. (id_t (nextTask c), task (nextTask c), handle (nextTask c),
                 settled c = None, finalized c)) (dispatched s))"

fun same_shape :: "('t, 'v, 'e) event \<Rightarrow> ('t, 'v, 'e) event \<Rightarrow> bool" where
  "same_shape (AddTask t) (AddTask t') = (t = t')"
| "same_shape (TaskFulfils k _) (TaskFulfils k' _) = (k = k')"
| "same_shape (TaskFulfils k _) (TaskFails k' _) = (k = k')"
| "same_shape (TaskFails k _) (TaskFulfils k' _) = (k = k')"
| "same_shape (TaskFails k _) (TaskFails k' _) = (k = k')"
| "same_shape (Finally k) (Finally k') = (k = k')"
| "same_shape _ _ = False"

text \<open>
  The number of handler runs a state still owes: two for a task that is queued or
  whose outcome is awaited (\<^verbatim>\<open>.then\<close> or \<^verbatim>\<open>.catch\<close>, then \<^verbatim>\<open>.finally\<close>), one for
  a settled task whose \<^verbatim>\<open>.finally\<close> has not run.
\<close>

definition owed :: "('t, 'v, 'e) chain \<Rightarrow> nat" where
  "owed c = (if finalized c then 0 else if settled c = None then 2 else 1)"

definition remaining :: "('t, 'v, 'e) scheduler \<Rightarrow> nat" where
  "remaining s = 2 * length (taskQueue s) + sum_list (map owed (dispatched s))"

section \<open>Invariants and auxiliary facts\<close>

subsection \<open>Runs and the effect of the methods on the fields\<close>

text \<open>
  A property that holds initially and is kept by every step holds after every
  run. The methods and handlers leave \<open>maxConcurrent\<close> and, but for \<^verbatim>\<open>addTask\<close>,
  \<open>taskId\<close> alone, and none changes the id, the task or the promise of a record.
\<close>

lemma run_invariant:
  assumes "run s es = Some s'" and "P s"
    and "\<And>e a b. P a \<Longrightarrow> step e a = Some b \<Longrightarrow> P b"
  shows "P s'"
  using assms(1,2)
proof (induction es arbitrary: s)
  case Nil
  then show ?case by simp
next
  case (Cons e es)
  then show ?case by (auto split: option.splits intro: assms(3))
qed

lemma run_append: "run s (es @ fs) = (case run s es of None \<Rightarrow> None | Some s' \<Rightarrow> run s' fs)"
  by (induction es arbitrary: s) (auto split: option.splits)

lemma executeNext_fields [simp]:
  "maxConcurrent (executeNext s) = maxConcurrent s"
  "taskId (executeNext s) = taskId s"
  "promises (executeNext s) = promises s"
  by (simp_all add: executeNext_def split: list.split)

lemma records_executeNext:
  "map id_t (records (executeNext s)) = map id_t (records s)"
  "map handle (records (executeNext s)) = map handle (records s)"
  "map task (records (executeNext s)) = map task (records s)"
  by (simp_all add: executeNext_def records_def split: list.split)

lemma map_nextTask_update:
  assumes "k < length cs" and "f (nextTask c) = f (nextTask (cs ! k))"
  shows "map (f \<circ> nextTask) (cs[k := c]) = map (f \<circ> nextTask) cs"
proof -
  have "map (f \<circ> nextTask) (cs[k := c]) = (map (f \<circ> nextTask) cs)[k := f (nextTask (cs ! k))]"
    by (simp add: map_update assms(2))
  also have "\<dots> = map (f \<circ> nextTask) cs"
    using assms(1) by (metis comp_apply list_update_id nth_map)
  finally show ?thesis .
qed

lemma records_handlers:
  assumes "k < length (dispatched s)"
  shows "map id_t (records (onFulfilled k v s)) = map id_t (records s)"
    and "map handle (records (onFulfilled k v s)) = map handle (records s)"
    and "map id_t (records (onRejected k e s)) = map id_t (records s)"
    and "map handle (records (onRejected k e s)) = map handle (records s)"
    and "map id_t (records (onFinally k s)) = map id_t (records s)"
    and "map handle (records (onFinally k s)) = map handle (records s)"
  using assms
  by (simp_all add: onFulfilled_def onRejected_def onFinally_def records_executeNext Let_def)
     (simp_all add: records_def map_nextTask_update)

lemma handlers_fields [simp]:
  "taskId (onFulfilled k v s) = taskId s"
  "taskId (onRejected k e s) = taskId s"
  "taskId (onFinally k s) = taskId s"
  "maxConcurrent (onFulfilled k v s) = maxConcurrent s"
  "maxConcurrent (onRejected k e s) = maxConcurrent s"
  "maxConcurrent (onFinally k s) = maxConcurrent s"
  "runningCount (onFulfilled k v s) = runningCount s"
  "runningCount (onRejected k e s) = runningCount s"
  "taskQueue (onFulfilled k v s) = taskQueue s"
  "taskQueue (onRejected k e s) = taskQueue s"
  "length (promises (onFulfilled k v s)) = length (promises s)"
  "length (promises (onRejected k e s)) = length (promises s)"
  "promises (onFinally k s) = promises s"
  by (simp_all add: onFulfilled_def onRejected_def onFinally_def Let_def)

subsection \<open>The ids of the records\<close>



subsection \<open>The promises held by the records\<close>

text \<open>
  The record of the j-th submission holds the settling functions of the j-th
  promise.
\<close>

lemma inv_handles_step: "inv_handles s \<Longrightarrow> step ev s = Some s' \<Longrightarrow> inv_handles s'"
proof (cases ev)
  case (AddTask t)
  assume "inv_handles s" "step ev s = Some s'"
  with AddTask show ?thesis
    by (auto simp add: inv_handles_def addTask_def Let_def records_executeNext)
       (simp add: records_def)
next
  case (TaskFulfils k v)
  assume "inv_handles s" "step ev s = Some s'"
  with TaskFulfils show ?thesis
    by (auto simp add: inv_handles_def records_handlers split: if_splits)
next
  case (TaskFails k e)
  assume "inv_handles s" "step ev s = Some s'"
  with TaskFails show ?thesis
    by (auto simp add: inv_handles_def records_handlers split: if_splits)
next
  case (Finally k)
  assume "inv_handles s" "step ev s = Some s'"
  with Finally show ?thesis
    by (auto simp add: inv_handles_def records_handlers split: if_splits)
qed

lemma inv_handles_constructor: "inv_handles (constructor m)"
  by (simp add: inv_handles_def constructor_def records_def)

lemma inv_handles_nth:
  assumes "inv_handles s" and "k < length (dispatched s)"
  shows "handle (nextTask (dispatched s ! k)) = k"
proof -
  have "map handle (records s) ! k = [0..<length (promises s)] ! k"
    using assms(1) by (simp add: inv_handles_def)
  moreover have "length (records s) = length (promises s)"
    using assms(1) by (metis inv_handles_def length_map length_upt minus_nat.diff_0)
  moreover have "k < length (records s)" using assms(2) by (simp add: records_def)
  ultimately show ?thesis using assms(2) by (simp add: records_def nth_append)
qed


subsection \<open>The status of queued and dispatched records\<close>

text \<open>
  A queued record is \<open>Pending\<close>; the status of a dispatched record follows the
  outcome its chain has seen; a finished chain has seen an outcome.
\<close>

lemma inv_status_executeNext: "inv_status s \<Longrightarrow> inv_status (executeNext s)"
  by (auto simp add: inv_status_def executeNext_def split: list.split)

lemma list_all_update:
  "list_all P xs \<Longrightarrow> P y \<Longrightarrow> list_all P (xs[k := y])"
  by (induction xs arbitrary: k) (auto split: nat.splits)

lemma inv_status_step: "inv_status s \<Longrightarrow> step ev s = Some s' \<Longrightarrow> inv_status s'"
proof (cases ev)
  case (AddTask t)
  assume a: "inv_status s" "step ev s = Some s'"
  have "inv_status (s \<lparr> promises := promises s @ [[]], taskId := taskId s + 1,
          taskQueue := taskQueue s @ [\<lparr> id_t = taskId s + 1, task = t, handle = length (promises s), status = Pending \<rparr>] \<rparr>)"
    using a(1) by (simp add: inv_status_def)
  then show ?thesis using a(2) AddTask
    by (auto simp add: addTask_def Let_def dest: inv_status_executeNext)
next
  case (TaskFulfils k v)
  assume "inv_status s" "step ev s = Some s'"
  with TaskFulfils show ?thesis
    by (auto simp add: inv_status_def onFulfilled_def Let_def list_all_update split: if_splits)
next
  case (TaskFails k e)
  assume "inv_status s" "step ev s = Some s'"
  with TaskFails show ?thesis
    by (auto simp add: inv_status_def onRejected_def Let_def list_all_update split: if_splits)
next
  case (Finally k)
  assume a: "inv_status s" "step ev s = Some s'"
  have "k < length (dispatched s) \<Longrightarrow> settled (dispatched s ! k) \<noteq> None \<Longrightarrow>
      inv_status (s \<lparr> runningCount := runningCount s - 1,
            dispatched := (dispatched s) [k := (dispatched s ! k) \<lparr> finalized := True \<rparr>] \<rparr>)"
    using a(1) by (auto simp add: inv_status_def list_all_length nth_list_update)
  then show ?thesis using a(2) Finally
    by (auto simp add: onFinally_def split: if_splits dest: inv_status_executeNext)
qed

lemma inv_status_constructor: "inv_status (constructor m)"
  by (simp add: inv_status_def constructor_def)

subsection \<open>The running count counts the unfinished chains\<close>

text \<open>
  \<open>runningCount\<close> is the number of chains whose \<^verbatim>\<open>.finally\<close> handler has not run.
\<close>

lemma inv_count_executeNext: "inv_count s \<Longrightarrow> inv_count (executeNext s)"
  by (auto simp add: inv_count_def executeNext_def split: list.split)

lemma filter_update_same:
  "k < length xs \<Longrightarrow> P y = P (xs ! k) \<Longrightarrow> length (filter P (xs[k := y])) = length (filter P xs)"
  by (induction xs arbitrary: k) (auto split: nat.splits)

lemma filter_update_drop:
  "k < length xs \<Longrightarrow> P (xs ! k) \<Longrightarrow> \<not> P y \<Longrightarrow> Suc (length (filter P (xs[k := y]))) = length (filter P xs)"
  by (induction xs arbitrary: k) (auto split: nat.splits simp add: filter_update_same)

lemma inv_count_step: "inv_count s \<Longrightarrow> step ev s = Some s' \<Longrightarrow> inv_count s'"
proof (cases ev)
  case (AddTask t)
  assume a: "inv_count s" "step ev s = Some s'"
  have "inv_count (s \<lparr> promises := promises s @ [[]], taskId := taskId s + 1,
          taskQueue := taskQueue s @ [\<lparr> id_t = taskId s + 1, task = t, handle = length (promises s), status = Pending \<rparr>] \<rparr>)"
    using a(1) by (simp add: inv_count_def)
  then show ?thesis using a(2) AddTask
    by (auto simp add: addTask_def Let_def dest: inv_count_executeNext)
next
  case (TaskFulfils k v)
  assume "inv_count s" "step ev s = Some s'"
  with TaskFulfils show ?thesis
    by (auto simp add: inv_count_def onFulfilled_def Let_def filter_update_same split: if_splits)
next
  case (TaskFails k e)
  assume "inv_count s" "step ev s = Some s'"
  with TaskFails show ?thesis
    by (auto simp add: inv_count_def onRejected_def Let_def filter_update_same split: if_splits)
next
  case (Finally k)
  assume a: "inv_count s" "step ev s = Some s'"
  have "inv_count (s \<lparr> runningCount := runningCount s - 1,
            dispatched := (dispatched s) [k := (dispatched s ! k) \<lparr> finalized := True \<rparr>] \<rparr>)"
    if "k < length (dispatched s)" "\<not> finalized (dispatched s ! k)"
  proof -
    have "Suc (length (filter (\<lambda>c. \<not> finalized c) ((dispatched s) [k := (dispatched s ! k) \<lparr> finalized := True \<rparr>])))
        = length (filter (\<lambda>c. \<not> finalized c) (dispatched s))"
      using that by (intro filter_update_drop) simp_all
    then show ?thesis using a(1) by (simp add: inv_count_def)
  qed
  then show ?thesis using a(2) Finally
    by (auto simp add: onFinally_def split: if_splits dest: inv_count_executeNext)
qed

lemma inv_count_constructor: "inv_count (constructor m)"
  by (simp add: inv_count_def constructor_def)

subsection \<open>The running count and its bound\<close>

text \<open>
  \<open>runningCount\<close> never exceeds \<open>max 0 maxConcurrent\<close>.
\<close>

lemma inv_bound_executeNext: "inv_bound s \<Longrightarrow> inv_bound (executeNext s)"
  by (auto simp add: inv_bound_def executeNext_def split: list.split)

lemma inv_bound_step: "inv_bound s \<Longrightarrow> step ev s = Some s' \<Longrightarrow> inv_bound s'"
proof (cases ev)
  case (AddTask t)
  assume a: "inv_bound s" "step ev s = Some s'"
  have "inv_bound (s \<lparr> promises := promises s @ [[]], taskId := taskId s + 1,
          taskQueue := taskQueue s @ [\<lparr> id_t = taskId s + 1, task = t, handle = length (promises s), status = Pending \<rparr>] \<rparr>)"
    using a(1) by (simp add: inv_bound_def)
  then show ?thesis using a(2) AddTask
    by (auto simp add: addTask_def Let_def dest: inv_bound_executeNext)
next
  case (TaskFulfils k v)
  assume "inv_bound s" "step ev s = Some s'"
  with TaskFulfils show ?thesis
    by (auto simp add: inv_bound_def split: if_splits)
next
  case (TaskFails k e)
  assume "inv_bound s" "step ev s = Some s'"
  with TaskFails show ?thesis
    by (auto simp add: inv_bound_def split: if_splits)
next
  case (Finally k)
  assume a: "inv_bound s" "step ev s = Some s'"
  have "inv_bound (s \<lparr> runningCount := runningCount s - 1,
            dispatched := (dispatched s) [k := (dispatched s ! k) \<lparr> finalized := True \<rparr>] \<rparr>)"
    using a(1) by (simp add: inv_bound_def)
  then show ?thesis using a(2) Finally
    by (auto simp add: onFinally_def split: if_splits dest: inv_bound_executeNext)
qed

lemma inv_bound_constructor: "inv_bound (constructor m)"
  by (simp add: inv_bound_def constructor_def)

subsection \<open>A waiting task means no free slot\<close>

text \<open>
  While a task waits in the queue, \<open>runningCount\<close> is at least \<open>maxConcurrent\<close>:
  one call of \<^verbatim>\<open>executeNext\<close> after each submission and each finished chain is
  enough to keep every slot in use.
\<close>

lemma inv_busy_executeNext:
  "length (taskQueue s) \<le> 1 \<or> maxConcurrent s \<le> runningCount s + 1 \<Longrightarrow> inv_busy (executeNext s)"
  by (auto simp add: inv_busy_def executeNext_def split: list.split)

lemma inv_busy_step: "inv_busy s \<Longrightarrow> step ev s = Some s' \<Longrightarrow> inv_busy s'"
proof (cases ev)
  case (AddTask t)
  assume a: "inv_busy s" "step ev s = Some s'"
  define s3 where "s3 = s \<lparr> promises := promises s @ [[]], taskId := taskId s + 1,
          taskQueue := taskQueue s @ [\<lparr> id_t = taskId s + 1, task = t, handle = length (promises s), status = Pending \<rparr>] \<rparr>"
  have "length (taskQueue s3) \<le> 1 \<or> maxConcurrent s3 \<le> runningCount s3 + 1"
    using a(1) by (cases "taskQueue s") (auto simp add: s3_def inv_busy_def)
  then have "inv_busy (executeNext s3)" by (rule inv_busy_executeNext)
  moreover have "s' = executeNext s3"
    using a(2) AddTask by (simp add: addTask_def Let_def s3_def)
  ultimately show ?thesis by simp
next
  case (TaskFulfils k v)
  assume "inv_busy s" "step ev s = Some s'"
  with TaskFulfils show ?thesis
    by (auto simp add: inv_busy_def split: if_splits)
next
  case (TaskFails k e)
  assume "inv_busy s" "step ev s = Some s'"
  with TaskFails show ?thesis
    by (auto simp add: inv_busy_def split: if_splits)
next
  case (Finally k)
  assume a: "inv_busy s" "step ev s = Some s'"
  define s1 where "s1 = s \<lparr> runningCount := runningCount s - 1,
            dispatched := (dispatched s) [k := (dispatched s ! k) \<lparr> finalized := True \<rparr>] \<rparr>"
  have "length (taskQueue s1) \<le> 1 \<or> maxConcurrent s1 \<le> runningCount s1 + 1"
    using a(1) by (cases "taskQueue s") (auto simp add: s1_def inv_busy_def)
  then have "inv_busy (executeNext s1)" by (rule inv_busy_executeNext)
  moreover have "s' = executeNext s1"
    using a(2) Finally by (simp add: onFinally_def s1_def split: if_splits)
  ultimately show ?thesis by simp
qed

lemma inv_busy_constructor: "inv_busy (constructor m)"
  by (simp add: inv_busy_def constructor_def)


subsection \<open>Promises mirror outcomes\<close>

text \<open>
  The calls a promise has received are those its task's outcome asks for.
\<close>

lemma inv_mirror_executeNext: "inv_mirror s \<Longrightarrow> inv_mirror (executeNext s)"
  by (auto simp add: inv_mirror_def executeNext_def split: list.split)

lemma inv_mirror_step:
  assumes "inv_mirror s" and "inv_handles s" and "step ev s = Some s'"
  shows "inv_mirror s'"
proof (cases ev)
  case (AddTask t)
  have "inv_mirror (s \<lparr> promises := promises s @ [[]], taskId := taskId s + 1,
          taskQueue := taskQueue s @ [\<lparr> id_t = taskId s + 1, task = t, handle = length (promises s), status = Pending \<rparr>] \<rparr>)"
    using assms(1) by (simp add: inv_mirror_def replicate_append_same)
  then show ?thesis using assms(3) AddTask
    by (auto simp add: addTask_def Let_def dest: inv_mirror_executeNext)
next
  case (TaskFulfils k v)
  with assms(3) have k: "k < length (dispatched s)" "settled (dispatched s ! k) = None"
    and s': "s' = onFulfilled k v s"
    by (auto split: if_splits)
  have h: "handle (nextTask (dispatched s ! k)) = k"
    using assms(2) k(1) by (rule inv_handles_nth)
  have "promises s ! k = []"
    using assms(1) k by (simp add: inv_mirror_def nth_append)
  then show ?thesis
    using assms(1) k
    by (simp add: s' inv_mirror_def onFulfilled_def Let_def h list_update_append map_update)
next
  case (TaskFails k e)
  with assms(3) have k: "k < length (dispatched s)" "settled (dispatched s ! k) = None"
    and s': "s' = onRejected k e s"
    by (auto split: if_splits)
  have h: "handle (nextTask (dispatched s ! k)) = k"
    using assms(2) k(1) by (rule inv_handles_nth)
  have "promises s ! k = []"
    using assms(1) k by (simp add: inv_mirror_def nth_append)
  then show ?thesis
    using assms(1) k
    by (simp add: s' inv_mirror_def onRejected_def Let_def h list_update_append map_update)
next
  case (Finally k)
  with assms(3) have k: "k < length (dispatched s)" and s': "s' = onFinally k s"
    by (auto split: if_splits)
  have "inv_mirror (s \<lparr> runningCount := runningCount s - 1,
            dispatched := (dispatched s) [k := (dispatched s ! k) \<lparr> finalized := True \<rparr>] \<rparr>)"
  proof -
    have "map (\<lambda>c. mirror (settled c)) ((dispatched s) [k := (dispatched s ! k) \<lparr> finalized := True \<rparr>])
        = map (\<lambda>c. mirror (settled c)) (dispatched s)"
      using k by (simp add: map_update list_update_same_conv)
    then show ?thesis using assms(1) by (simp add: inv_mirror_def)
  qed
  then show ?thesis unfolding s' onFinally_def by (rule inv_mirror_executeNext)
qed

lemma inv_mirror_constructor: "inv_mirror (constructor m)"
  by (simp add: inv_mirror_def constructor_def)


subsection \<open>Records follow the submissions\<close>

text \<open>
  The tasks of the records are the submitted tasks, in submission order.
\<close>

lemma map_task_step:
  assumes "step ev s = Some s'"
  shows "map task (records s') = map task (records s) @ submitted [ev]"
proof (cases ev)
  case (AddTask t)
  with assms show ?thesis
    by (auto simp add: addTask_def Let_def records_executeNext) (simp add: records_def)
next
  case (TaskFulfils k v)
  with assms show ?thesis
    by (auto simp add: onFulfilled_def Let_def records_def map_nextTask_update split: if_splits)
next
  case (TaskFails k e)
  with assms show ?thesis
    by (auto simp add: onRejected_def Let_def records_def map_nextTask_update split: if_splits)
next
  case (Finally k)
  with assms show ?thesis
    by (auto simp add: onFinally_def records_executeNext split: if_splits)
       (simp add: records_def map_nextTask_update)
qed

lemma submitted_Cons: "submitted (ev # es) = submitted [ev] @ submitted es"
  by (cases ev) simp_all

lemma map_task_run:
  "run s es = Some s' \<Longrightarrow> map task (records s') = map task (records s) @ submitted es"
proof (induction es arbitrary: s)
  case Nil
  then show ?case by simp
next
  case (Cons ev es)
  then obtain s1 where s1: "step ev s = Some s1" "run s1 es = Some s'"
    by (auto split: option.splits)
  show ?case
    using Cons.IH[OF s1(2)] map_task_step[OF s1(1)] submitted_Cons[of ev es] by simp
qed

subsection \<open>The invariants hold in every reachable state\<close>

text \<open>
  Every invariant holds after every run from a freshly constructed scheduler.
\<close>

lemma maxConcurrent_step: "step ev s = Some s' \<Longrightarrow> maxConcurrent s' = maxConcurrent s"
  by (cases ev) (auto simp add: addTask_def Let_def split: if_splits)

lemma maxConcurrent_run: "run s es = Some s' \<Longrightarrow> maxConcurrent s' = maxConcurrent s"
  by (induction es arbitrary: s) (auto split: option.splits dest: maxConcurrent_step)


lemma reachable_handles: "run (constructor m) es = Some s \<Longrightarrow> inv_handles s"
  by (erule run_invariant[where P = inv_handles]) (auto intro: inv_handles_constructor inv_handles_step)

lemma reachable_status: "run (constructor m) es = Some s \<Longrightarrow> inv_status s"
  by (erule run_invariant[where P = inv_status]) (auto intro: inv_status_constructor inv_status_step)

lemma reachable_count: "run (constructor m) es = Some s \<Longrightarrow> inv_count s"
  by (erule run_invariant[where P = inv_count]) (auto intro: inv_count_constructor inv_count_step)

lemma reachable_bound: "run (constructor m) es = Some s \<Longrightarrow> inv_bound s"
  by (erule run_invariant[where P = inv_bound]) (auto intro: inv_bound_constructor inv_bound_step)

lemma reachable_busy: "run (constructor m) es = Some s \<Longrightarrow> inv_busy s"
  by (erule run_invariant[where P = inv_busy]) (auto intro: inv_busy_constructor inv_busy_step)

lemma reachable_mirror: "run (constructor m) es = Some s \<Longrightarrow> inv_mirror s"
proof -
  assume "run (constructor m) es = Some s"
  then have "inv_mirror s \<and> inv_handles s"
    by (rule run_invariant[where P = "\<lambda>s. inv_mirror s \<and> inv_handles s"])
       (auto intro: inv_mirror_constructor inv_handles_constructor inv_handles_step inv_mirror_step)
  then show ?thesis ..
qed

subsection \<open>Outcomes do not influence scheduling\<close>

text \<open>
  Two states with the same scheduling view stay so under events of the same
  shape: whether a task succeeds or fails, and with which value or error, does
  not influence what is dispatched and when.
\<close>

lemma scheduling_executeNext:
  "scheduling a = scheduling b \<Longrightarrow> scheduling (executeNext a) = scheduling (executeNext b)"
  by (auto simp add: scheduling_def executeNext_def split: list.split)

lemma scheduling_nth:
  assumes "scheduling a = scheduling b" and "k < length (dispatched a)"
  shows "k < length (dispatched b)"
    and "id_t (nextTask (dispatched a ! k)) = id_t (nextTask (dispatched b ! k))"
    and "task (nextTask (dispatched a ! k)) = task (nextTask (dispatched b ! k))"
    and "handle (nextTask (dispatched a ! k)) = handle (nextTask (dispatched b ! k))"
    and "(settled (dispatched a ! k) = None) = (settled (dispatched b ! k) = None)"
    and "finalized (dispatched a ! k) = finalized (dispatched b ! k)"
proof -
  let ?f = "\<lambda>c. (id_t (nextTask c), task (nextTask c), handle (nextTask c), settled c = None, finalized c)"
  from assms(1) have m: "map ?f (dispatched a) = map ?f (dispatched b)"
    by (simp add: scheduling_def)
  then have "length (dispatched a) = length (dispatched b)"
    by (rule map_eq_imp_length_eq)
  with assms(2) show k: "k < length (dispatched b)" by simp
  from m have "map ?f (dispatched a) ! k = map ?f (dispatched b) ! k" by simp
  with assms(2) k have e: "?f (dispatched a ! k) = ?f (dispatched b ! k)" by simp
  from e show "id_t (nextTask (dispatched a ! k)) = id_t (nextTask (dispatched b ! k))" by simp
  from e show "task (nextTask (dispatched a ! k)) = task (nextTask (dispatched b ! k))" by simp
  from e show "handle (nextTask (dispatched a ! k)) = handle (nextTask (dispatched b ! k))" by simp
  from e show "(settled (dispatched a ! k) = None) = (settled (dispatched b ! k) = None)" by simp
  from e show "finalized (dispatched a ! k) = finalized (dispatched b ! k)" by simp
qed

lemma scheduling_update:
  assumes "scheduling a = scheduling b" and "k < length (dispatched a)"
    and "settled ca = None \<longleftrightarrow> settled cb = None"
    and "finalized ca = finalized cb"
    and "id_t (nextTask ca) = id_t (nextTask (dispatched a ! k))"
    and "task (nextTask ca) = task (nextTask (dispatched a ! k))"
    and "handle (nextTask ca) = handle (nextTask (dispatched a ! k))"
    and "id_t (nextTask cb) = id_t (nextTask (dispatched b ! k))"
    and "task (nextTask cb) = task (nextTask (dispatched b ! k))"
    and "handle (nextTask cb) = handle (nextTask (dispatched b ! k))"
    and "length pa = length (promises a)" and "length pb = length (promises b)"
  shows "scheduling (a \<lparr> dispatched := (dispatched a)[k := ca], promises := pa \<rparr>)
       = scheduling (b \<lparr> dispatched := (dispatched b)[k := cb], promises := pb \<rparr>)"
  using assms scheduling_nth[OF assms(1,2)]
  by (simp add: scheduling_def map_update)

lemma scheduling_settle:
  assumes "scheduling a = scheduling b" and "k < length (dispatched a)"
  shows "scheduling (onFulfilled k v a) = scheduling (onFulfilled k v' b)"
    and "scheduling (onFulfilled k v a) = scheduling (onRejected k e b)"
    and "scheduling (onRejected k e a) = scheduling (onFulfilled k v b)"
    and "scheduling (onRejected k e a) = scheduling (onRejected k e' b)"
proof -
  note n = scheduling_nth[OF assms]
  show "scheduling (onFulfilled k v a) = scheduling (onFulfilled k v' b)"
    unfolding onFulfilled_def onRejected_def Let_def
    using n by (intro scheduling_update[OF assms]) simp_all
  show "scheduling (onFulfilled k v a) = scheduling (onRejected k e b)"
    unfolding onFulfilled_def onRejected_def Let_def
    using n by (intro scheduling_update[OF assms]) simp_all
  show "scheduling (onRejected k e a) = scheduling (onFulfilled k v b)"
    unfolding onFulfilled_def onRejected_def Let_def
    using n by (intro scheduling_update[OF assms]) simp_all
  show "scheduling (onRejected k e a) = scheduling (onRejected k e' b)"
    unfolding onFulfilled_def onRejected_def Let_def
    using n by (intro scheduling_update[OF assms]) simp_all
qed

lemma scheduling_finally:
  assumes "scheduling a = scheduling b" and "k < length (dispatched a)"
  shows "scheduling (onFinally k a) = scheduling (onFinally k b)"
proof -
  note n = scheduling_nth[OF assms]
  have "scheduling (a \<lparr> dispatched := (dispatched a)[k := (dispatched a ! k) \<lparr> finalized := True \<rparr>], promises := promises a \<rparr>)
      = scheduling (b \<lparr> dispatched := (dispatched b)[k := (dispatched b ! k) \<lparr> finalized := True \<rparr>], promises := promises b \<rparr>)"
    using n by (intro scheduling_update[OF assms]) simp_all
  then have "scheduling (a \<lparr> runningCount := runningCount a - 1, dispatched := (dispatched a)[k := (dispatched a ! k) \<lparr> finalized := True \<rparr>] \<rparr>)
      = scheduling (b \<lparr> runningCount := runningCount b - 1, dispatched := (dispatched b)[k := (dispatched b ! k) \<lparr> finalized := True \<rparr>] \<rparr>)"
    using assms(1) by (simp add: scheduling_def)
  then show ?thesis unfolding onFinally_def by (rule scheduling_executeNext)
qed

lemma scheduling_addTask:
  assumes "scheduling a = scheduling b"
  shows "scheduling (snd (addTask t a)) = scheduling (snd (addTask t b))"
    and "fst (addTask t a) = fst (addTask t b)"
proof -
  show "fst (addTask t a) = fst (addTask t b)"
    using assms by (simp add: addTask_def Let_def scheduling_def)
  have "scheduling (a \<lparr> promises := promises a @ [[]], taskId := taskId a + 1,
          taskQueue := taskQueue a @ [\<lparr> id_t = taskId a + 1, task = t, handle = length (promises a), status = Pending \<rparr>] \<rparr>)
      = scheduling (b \<lparr> promises := promises b @ [[]], taskId := taskId b + 1,
          taskQueue := taskQueue b @ [\<lparr> id_t = taskId b + 1, task = t, handle = length (promises b), status = Pending \<rparr>] \<rparr>)"
    using assms by (simp add: scheduling_def)
  then have "scheduling (executeNext (a \<lparr> promises := promises a @ [[]], taskId := taskId a + 1,
          taskQueue := taskQueue a @ [\<lparr> id_t = taskId a + 1, task = t, handle = length (promises a), status = Pending \<rparr>] \<rparr>))
      = scheduling (executeNext (b \<lparr> promises := promises b @ [[]], taskId := taskId b + 1,
          taskQueue := taskQueue b @ [\<lparr> id_t = taskId b + 1, task = t, handle = length (promises b), status = Pending \<rparr>] \<rparr>))"
    by (rule scheduling_executeNext)
  then show "scheduling (snd (addTask t a)) = scheduling (snd (addTask t b))"
    by (simp add: addTask_def Let_def)
qed

lemma scheduling_step:
  assumes "scheduling a = scheduling b" and "same_shape ev ev'" and "step ev a = Some a'"
  shows "\<exists>b'. step ev' b = Some b' \<and> scheduling a' = scheduling b'"
proof (cases ev)
  case (AddTask t)
  with assms(2) have "ev' = AddTask t" by (cases ev') simp_all
  moreover have "a' = snd (addTask t a)" using AddTask assms(3) by simp
  ultimately show ?thesis using scheduling_addTask(1)[OF assms(1), of t] by simp
next
  case (TaskFulfils k v)
  with assms(3) have k: "k < length (dispatched a)" "settled (dispatched a ! k) = None"
    and a': "a' = onFulfilled k v a" by (auto split: if_splits)
  note n = scheduling_nth[OF assms(1) k(1)]
  from TaskFulfils assms(2) consider v' where "ev' = TaskFulfils k v'" | e' where "ev' = TaskFails k e'"
    by (cases ev') simp_all
  then show ?thesis
    using k n a' scheduling_settle[OF assms(1) k(1)] by cases auto
next
  case (TaskFails k e)
  with assms(3) have k: "k < length (dispatched a)" "settled (dispatched a ! k) = None"
    and a': "a' = onRejected k e a" by (auto split: if_splits)
  note n = scheduling_nth[OF assms(1) k(1)]
  from TaskFails assms(2) consider v' where "ev' = TaskFulfils k v'" | e' where "ev' = TaskFails k e'"
    by (cases ev') simp_all
  then show ?thesis
    using k n a' scheduling_settle[OF assms(1) k(1)] by cases auto
next
  case (Finally k)
  with assms(2) have ev': "ev' = Finally k" by (cases ev') simp_all
  from Finally assms(3) have k: "k < length (dispatched a)" "settled (dispatched a ! k) \<noteq> None"
      "\<not> finalized (dispatched a ! k)"
    and a': "a' = onFinally k a" by (auto split: if_splits)
  note n = scheduling_nth[OF assms(1) k(1)]
  show ?thesis using k n a' ev' scheduling_finally[OF assms(1) k(1)] by auto
qed

lemma scheduling_run:
  assumes "list_all2 same_shape es es'" and "scheduling a = scheduling b" and "run a es = Some a'"
  shows "\<exists>b'. run b es' = Some b' \<and> scheduling a' = scheduling b'"
  using assms
proof (induction es es' arbitrary: a b rule: list_all2_induct)
  case Nil
  then show ?case by simp
next
  case (Cons ev es ev' es')
  from Cons.prems obtain a1 where a1: "step ev a = Some a1" "run a1 es = Some a'"
    by (auto split: option.splits)
  from scheduling_step[OF Cons.prems(1) Cons.hyps(1) a1(1)]
  obtain b1 where b1: "step ev' b = Some b1" "scheduling a1 = scheduling b1" by blast
  from Cons.IH[OF b1(2) a1(2)] b1(1) show ?case by simp
qed

subsection \<open>Handler runs owed\<close>

text \<open>
  Every handler run lowers \<open>remaining\<close> by one, \<^verbatim>\<open>executeNext\<close> leaves it as it
  is, and as long as it is not 0 a scheduler with a slot has a chain in flight.
\<close>

lemma remaining_executeNext: "remaining (executeNext s) = remaining s"
  by (auto simp add: remaining_def executeNext_def owed_def split: list.split)

lemma sum_list_owed_update:
  "k < length cs \<Longrightarrow> owed (cs ! k) = Suc (owed c) \<Longrightarrow>
     Suc (sum_list (map owed (cs[k := c]))) = sum_list (map owed cs)"
  by (induction cs arbitrary: k) (auto split: nat.splits)

lemma remaining_step:
  assumes "inv_status s" and "step ev s = Some s'" and "\<not> isAddTask ev"
  shows "Suc (remaining s') = remaining s"
proof (cases ev)
  case (AddTask t)
  with assms(3) show ?thesis by simp
next
  case (TaskFulfils k v)
  with assms(2) have k: "k < length (dispatched s)" "settled (dispatched s ! k) = None"
    and s': "s' = onFulfilled k v s" by (auto split: if_splits)
  from assms(1) k have "\<not> finalized (dispatched s ! k)"
    by (auto simp add: inv_status_def list_all_length)
  with k have "owed (dispatched s ! k) = Suc (owed ((dispatched s ! k)
      \<lparr> nextTask := (nextTask (dispatched s ! k)) \<lparr> status := Completed \<rparr>, settled := Some (Inr v) \<rparr>))"
    by (simp add: owed_def)
  from sum_list_owed_update[OF k(1) this] show ?thesis
    by (simp add: s' onFulfilled_def Let_def remaining_def)
next
  case (TaskFails k e)
  with assms(2) have k: "k < length (dispatched s)" "settled (dispatched s ! k) = None"
    and s': "s' = onRejected k e s" by (auto split: if_splits)
  from assms(1) k have "\<not> finalized (dispatched s ! k)"
    by (auto simp add: inv_status_def list_all_length)
  with k have "owed (dispatched s ! k) = Suc (owed ((dispatched s ! k)
      \<lparr> nextTask := (nextTask (dispatched s ! k)) \<lparr> status := Failed \<rparr>, settled := Some (Inl e) \<rparr>))"
    by (simp add: owed_def)
  from sum_list_owed_update[OF k(1) this] show ?thesis
    by (simp add: s' onRejected_def Let_def remaining_def)
next
  case (Finally k)
  with assms(2) have k: "k < length (dispatched s)" "settled (dispatched s ! k) \<noteq> None"
      "\<not> finalized (dispatched s ! k)"
    and s': "s' = onFinally k s" by (auto split: if_splits)
  from k have "owed (dispatched s ! k) = Suc (owed ((dispatched s ! k) \<lparr> finalized := True \<rparr>))"
    by (simp add: owed_def)
  from sum_list_owed_update[OF k(1) this] show ?thesis
    by (simp add: s' onFinally_def remaining_executeNext) (simp add: remaining_def)
qed

lemma remaining_run:
  assumes "inv_status s" and "run s fs = Some s'" and "list_all (\<lambda>ev. \<not> isAddTask ev) fs"
  shows "remaining s' + length fs = remaining s"
  using assms
proof (induction fs arbitrary: s)
  case Nil
  then show ?case by simp
next
  case (Cons ev fs)
  from Cons.prems obtain s1 where s1: "step ev s = Some s1" "run s1 fs = Some s'"
    by (auto split: option.splits)
  have "inv_status s1" using Cons.prems(1) s1(1) by (rule inv_status_step)
  from Cons.IH[OF this s1(2)] Cons.prems(3) remaining_step[OF Cons.prems(1) s1(1)]
  show ?case by simp
qed

lemma owed_zero: "owed c = 0 \<longleftrightarrow> finalized c"
  by (simp add: owed_def)

lemma remaining_zero:
  "remaining s = 0 \<longleftrightarrow> taskQueue s = [] \<and> list_all finalized (dispatched s)"
  by (simp add: remaining_def list_all_iff owed_zero)

lemma progress:
  assumes "inv_busy s" and "inv_count s" and "1 \<le> maxConcurrent s" and "remaining s \<noteq> 0"
  shows "\<exists>k<length (dispatched s). \<not> finalized (dispatched s ! k)"
proof -
  have "filter (\<lambda>c. \<not> finalized c) (dispatched s) \<noteq> []"
  proof (cases "taskQueue s = []")
    case True
    with assms(4) have "\<not> list_all finalized (dispatched s)" by (simp add: remaining_zero)
    then show ?thesis by (auto simp add: filter_empty_conv list_all_iff)
  next
    case False
    with assms(1,3) have "1 \<le> runningCount s" by (simp add: inv_busy_def)
    with assms(2) show ?thesis by (auto simp add: inv_count_def)
  qed
  then obtain c where "c \<in> set (dispatched s)" "\<not> finalized c"
    by (auto simp add: filter_empty_conv)
  then show ?thesis by (auto simp add: in_set_conv_nth)
qed

subsection \<open>Further facts about reachable states\<close>






lemma addTask_fields [simp]:
  "fst (addTask t s) = length (promises s)"
  "taskId (snd (addTask t s)) = taskId s + 1"
  "maxConcurrent (snd (addTask t s)) = maxConcurrent s"
  "promises (snd (addTask t s)) = promises s @ [[]]"
  by (simp_all add: addTask_def Let_def)


lemma idle_step:
  assumes "maxConcurrent s \<le> 0" and "dispatched s = []" and "runningCount s = 0"
    and "step ev s = Some s'"
  shows "isAddTask ev \<and> maxConcurrent s' \<le> 0 \<and> dispatched s' = [] \<and> runningCount s' = 0"
  using assms by (cases ev) (auto simp add: addTask_def Let_def executeNext_def)

lemma idle_run:
  assumes "maxConcurrent s \<le> 0" and "dispatched s = []" and "runningCount s = 0"
    and "run s es = Some s'"
  shows "list_all isAddTask es \<and> dispatched s' = [] \<and> runningCount s' = 0"
  using assms
proof (induction es arbitrary: s)
  case Nil
  then show ?case by simp
next
  case (Cons ev es)
  from Cons.prems(4) obtain s1 where s1: "step ev s = Some s1" "run s1 es = Some s'"
    by (auto split: option.splits)
  from idle_step[OF Cons.prems(1-3) s1(1)] Cons.IH[OF _ _ _ s1(2)]
  show ?case by simp
qed

lemma reachable_append:
  assumes "run (constructor m) es = Some s" and "run s fs = Some s'"
  shows "run (constructor m) (es @ fs) = Some s'"
  using assms by (simp add: run_append)

lemma quiet_when_drained:
  assumes "inv_status s" and "remaining s = 0" and "\<not> isAddTask ev"
  shows "step ev s = None"
proof -
  from assms(2) have f: "list_all finalized (dispatched s)" by (simp add: remaining_zero)
  have "settled (dispatched s ! k) \<noteq> None \<and> finalized (dispatched s ! k)"
    if "k < length (dispatched s)" for k
    using that f assms(1) by (simp add: inv_status_def list_all_length)
  with assms(3) show ?thesis by (cases ev) auto
qed

lemma drained_terminal:
  assumes "inv_status s" and "inv_count s" and "inv_mirror s" and "remaining s = 0"
  shows "taskQueue s = []" and "runningCount s = 0"
    and "\<forall>w\<in>set (records s). status w = Completed \<or> status w = Failed"
    and "\<forall>h<length (promises s). length (promises s ! h) = 1"
proof -
  from assms(4) have q: "taskQueue s = []" and f: "list_all finalized (dispatched s)"
    by (simp_all add: remaining_zero)
  show "taskQueue s = []" by (rule q)
  have "filter (\<lambda>c. \<not> finalized c) (dispatched s) = []"
    using f by (simp add: filter_empty_conv list_all_iff)
  with assms(2) show "runningCount s = 0" by (simp add: inv_count_def)
  have tm: "settled c \<noteq> None \<and> status (nextTask c) = statusOf (settled c)"
    if "c \<in> set (dispatched s)" for c
    using that f assms(1) by (simp add: inv_status_def list_all_iff)
  show "\<forall>w\<in>set (records s). status w = Completed \<or> status w = Failed"
  proof
    fix w assume "w \<in> set (records s)"
    with q obtain c where c: "c \<in> set (dispatched s)" "w = nextTask c"
      by (auto simp add: records_def)
    from tm[OF c(1)] show "status w = Completed \<or> status w = Failed"
      unfolding c(2) by (cases "settled c" rule: statusOf.cases) simp_all
  qed
  show "\<forall>h<length (promises s). length (promises s ! h) = 1"
  proof (intro allI impI)
    fix h assume h: "h < length (promises s)"
    from assms(3) q have p: "promises s = map (\<lambda>c. mirror (settled c)) (dispatched s)"
      by (simp add: inv_mirror_def)
    with h have hl: "h < length (dispatched s)" by (metis length_map)
    then have "dispatched s ! h \<in> set (dispatched s)" by simp
    from tm[OF this] have "length (mirror (settled (dispatched s ! h))) = 1"
      by (cases "settled (dispatched s ! h)" rule: mirror.cases) simp_all
    moreover have "promises s ! h = mirror (settled (dispatched s ! h))"
      using arg_cong[OF p, of "\<lambda>xs. xs ! h"] hl by simp
    ultimately show "length (promises s ! h) = 1" by simp
  qed
qed

lemma next_handler:
  assumes "inv_busy s" and "inv_count s" and "1 \<le> maxConcurrent s" and "remaining s \<noteq> 0"
  shows "\<exists>k<length (dispatched s). \<not> finalized (dispatched s ! k) \<and>
          (if settled (dispatched s ! k) = None
           then (\<forall>v. step (TaskFulfils k v) s \<noteq> None) \<and> (\<forall>e. step (TaskFails k e) s \<noteq> None)
           else step (Finally k) s \<noteq> None)"
proof -
  from progress[OF assms] obtain k where "k < length (dispatched s)" "\<not> finalized (dispatched s ! k)"
    by blast
  then show ?thesis by (intro exI[of _ k]) simp
qed

lemma drain_exists:
  assumes "run (constructor m) es = Some s" and "1 \<le> maxConcurrent s"
  shows "\<exists>fs s'. list_all (\<lambda>ev. \<not> isAddTask ev) fs \<and> run s fs = Some s' \<and> remaining s' = 0"
  using assms
proof (induction "remaining s" arbitrary: s es)
  case 0
  then have "list_all (\<lambda>ev. \<not> isAddTask ev) [] \<and> run s [] = Some s \<and> remaining s = 0" by simp
  then show ?case by blast
next
  case (Suc n)
  have bu: "inv_busy s" and co: "inv_count s" and st: "inv_status s"
    using Suc.prems(1) by (rule reachable_busy reachable_count reachable_status)+
  from Suc.hyps(2) have "remaining s \<noteq> 0" by simp
  from progress[OF bu co Suc.prems(2) this]
  obtain k where k: "k < length (dispatched s)" "\<not> finalized (dispatched s ! k)" by blast
  define ev :: "('a, 'b, 'c) event"
    where "ev = (if settled (dispatched s ! k) = None then TaskFulfils k undefined else Finally k)"
  have na: "\<not> isAddTask ev" by (simp add: ev_def)
  from k obtain s1 where s1: "step ev s = Some s1"
    by (cases "settled (dispatched s ! k) = None") (simp_all add: ev_def)
  from remaining_step[OF st s1 na] Suc.hyps(2) have n: "n = remaining s1" by simp
  have r1: "run (constructor m) (es @ [ev]) = Some s1"
    using Suc.prems(1) s1 by (simp add: run_append)
  have m1: "1 \<le> maxConcurrent s1" using maxConcurrent_step[OF s1] Suc.prems(2) by simp
  from Suc.hyps(1)[OF n r1 m1] obtain fs s' where
    fs: "list_all (\<lambda>ev. \<not> isAddTask ev) fs" "run s1 fs = Some s'" "remaining s' = 0" by blast
  from fs na s1 have "list_all (\<lambda>ev. \<not> isAddTask ev) (ev # fs) \<and> run s (ev # fs) = Some s' \<and> remaining s' = 0"
    by simp
  then show ?case by blast
qed

lemma promises_stable_step:
  assumes "inv_handles s" and "inv_mirror s" and "step ev s = Some s'"
    and "h < length (promises s)" and "promises s ! h \<noteq> []"
  shows "h < length (promises s') \<and> promises s' ! h = promises s ! h"
proof (cases ev)
  case (AddTask t)
  with assms(3,4) show ?thesis by (auto simp add: nth_append)
next
  case (TaskFulfils k v)
  with assms(3) have k: "k < length (dispatched s)" "settled (dispatched s ! k) = None"
    and s': "s' = onFulfilled k v s" by (auto split: if_splits)
  have hk: "handle (nextTask (dispatched s ! k)) = k" using assms(1) k(1) by (rule inv_handles_nth)
  have "promises s ! k = []" using assms(2) k by (simp add: inv_mirror_def nth_append)
  with assms(5) have "h \<noteq> k" by auto
  then show ?thesis using assms(4) by (simp add: s' onFulfilled_def Let_def hk)
next
  case (TaskFails k e)
  with assms(3) have k: "k < length (dispatched s)" "settled (dispatched s ! k) = None"
    and s': "s' = onRejected k e s" by (auto split: if_splits)
  have hk: "handle (nextTask (dispatched s ! k)) = k" using assms(1) k(1) by (rule inv_handles_nth)
  have "promises s ! k = []" using assms(2) k by (simp add: inv_mirror_def nth_append)
  with assms(5) have "h \<noteq> k" by auto
  then show ?thesis using assms(4) by (simp add: s' onRejected_def Let_def hk)
next
  case (Finally k)
  with assms(3,4) show ?thesis by (auto split: if_splits)
qed

lemma promises_stable_run:
  assumes "inv_handles s" and "inv_mirror s" and "run s fs = Some s'"
    and "h < length (promises s)" and "promises s ! h \<noteq> []"
  shows "h < length (promises s') \<and> promises s' ! h = promises s ! h"
  using assms
proof (induction fs arbitrary: s)
  case Nil
  then show ?case by simp
next
  case (Cons ev fs)
  from Cons.prems(3) obtain s1 where s1: "step ev s = Some s1" "run s1 fs = Some s'"
    by (auto split: option.splits)
  have i1: "inv_handles s1" using Cons.prems(1) s1(1) by (rule inv_handles_step)
  have i2: "inv_mirror s1" using Cons.prems(2,1) s1(1) by (rule inv_mirror_step)
  from promises_stable_step[OF Cons.prems(1,2) s1(1) Cons.prems(4,5)]
  have h1: "h < length (promises s1)" "promises s1 ! h = promises s ! h" by simp_all
  with Cons.prems(5) have "promises s1 ! h \<noteq> []" by simp
  from Cons.IH[OF i1 i2 s1(2) h1(1) this] h1(2) show ?case by simp
qed

lemma length_promises_step:
  "step ev s = Some s' \<Longrightarrow> \<not> isAddTask ev \<Longrightarrow> length (promises s') = length (promises s)"
  by (cases ev) (auto split: if_splits)

lemma length_promises_run:
  "run s fs = Some s' \<Longrightarrow> list_all (\<lambda>ev. \<not> isAddTask ev) fs \<Longrightarrow>
     length (promises s') = length (promises s)"
proof (induction fs arbitrary: s)
  case Nil
  then show ?case by simp
next
  case (Cons ev fs)
  from Cons.prems(1) obtain s1 where s1: "step ev s = Some s1" "run s1 fs = Some s'"
    by (auto split: option.splits)
  from Cons.prems(2) have "\<not> isAddTask ev" "list_all (\<lambda>ev. \<not> isAddTask ev) fs" by simp_all
  from length_promises_step[OF s1(1) this(1)] Cons.IH[OF s1(2) this(2)] show ?case by simp
qed

subsection \<open>The counter of the code\<close>




section \<open>The claims\<close>

subsection \<open>C1: the bound on the running count\<close>

text \<open>
  C1, as amended. In every state that a freshly constructed scheduler reaches by
  any sequence of submissions, task outcomes and \<^verbatim>\<open>.finally\<close> handlers,
  \<open>0 \<le> runningCount \<le> max 0 maxConcurrent\<close>: for \<open>maxConcurrent \<ge> 0\<close> the count
  stays within \<open>0 \<dots> maxConcurrent\<close>, and \<open>maxConcurrent\<close> is the constructor's
  argument throughout. The count is the number of chains whose \<^verbatim>\<open>.finally\<close>
  handler has not run: one increment for each chain made, one decrement for each
  chain finished, so the count never goes negative.
  \<^verbatim>\<open>executeNext\<close> changes nothing when \<open>runningCount \<ge> maxConcurrent\<close>, and when
  it changes the state it adds one to the count and one chain.
\<close>

theorem runningCount_bounds:
  assumes "run (constructor m) es = Some s"
  shows "0 \<le> runningCount s \<and> runningCount s \<le> max 0 (maxConcurrent s) \<and>
         (0 \<le> maxConcurrent s \<longrightarrow> runningCount s \<le> maxConcurrent s) \<and>
         maxConcurrent s = (case m of None \<Rightarrow> 3 | Some n \<Rightarrow> n) \<and>
         runningCount s = int (length (filter (\<lambda>c. \<not> finalized c) (dispatched s))) \<and>
         (\<forall>t :: ('t, 'v, 'e) scheduler. maxConcurrent t \<le> runningCount t \<longrightarrow> executeNext t = t) \<and>
         (\<forall>t :: ('t, 'v, 'e) scheduler. executeNext t \<noteq> t \<longrightarrow>
            runningCount (executeNext t) = runningCount t + 1 \<and>
            length (dispatched (executeNext t)) = length (dispatched t) + 1)"
proof -
  have c: "runningCount s = int (length (filter (\<lambda>c. \<not> finalized c) (dispatched s)))"
    using reachable_count[OF assms] by (simp add: inv_count_def)
  have b: "runningCount s \<le> max 0 (maxConcurrent s)"
    using reachable_bound[OF assms] by (simp add: inv_bound_def)
  have m: "maxConcurrent s = (case m of None \<Rightarrow> 3 | Some n \<Rightarrow> n)"
    using maxConcurrent_run[OF assms] by (simp add: constructor_def)
  have e1: "\<forall>t :: ('t, 'v, 'e) scheduler. maxConcurrent t \<le> runningCount t \<longrightarrow> executeNext t = t"
    by (simp add: executeNext_def)
  have e2: "\<forall>t :: ('t, 'v, 'e) scheduler. executeNext t \<noteq> t \<longrightarrow>
            runningCount (executeNext t) = runningCount t + 1 \<and>
            length (dispatched (executeNext t)) = length (dispatched t) + 1"
    by (auto simp add: executeNext_def split: list.split)
  from c have z: "0 \<le> runningCount s" by simp
  from b have b': "0 \<le> maxConcurrent s \<longrightarrow> runningCount s \<le> maxConcurrent s" by arith
  from z b b' m c e1 e2 show ?thesis by blast
qed

text \<open>
  The theorem at a scheduler of two slots: three submissions, the first task
  succeeds and its chain finishes, the second task fails.
\<close>

theorem runningCount_bounds_witness:
  "let S = \<lparr> maxConcurrent = 2, runningCount = 2, taskQueue = [], taskId = 3,
       promises = [[Resolved 5], [Rejected ''e''], []],
       dispatched =
         [\<lparr> nextTask = \<lparr> id_t = 1, task = ''a'', handle = 0, status = Completed \<rparr>,
             settled = Some (Inr 5), finalized = True \<rparr>,
          \<lparr> nextTask = \<lparr> id_t = 2, task = ''b'', handle = 1, status = Failed \<rparr>,
             settled = Some (Inl ''e''), finalized = False \<rparr>,
          \<lparr> nextTask = \<lparr> id_t = 3, task = ''c'', handle = 2, status = Running \<rparr>,
             settled = None, finalized = False \<rparr>] \<rparr> :: (string, nat, string) scheduler
   in run (constructor (Some 2)) [AddTask ''a'', AddTask ''b'', AddTask ''c'', TaskFulfils 0 5, Finally 0, TaskFails 1 ''e''] = Some S \<and>
      0 \<le> runningCount S \<and> runningCount S \<le> maxConcurrent S \<and> maxConcurrent S = 2 \<and>
      runningCount S = int (length (filter (\<lambda>c. \<not> finalized c) (dispatched S)))"
proof -
  let ?S = "\<lparr> maxConcurrent = 2, runningCount = 2, taskQueue = [], taskId = 3,
       promises = [[Resolved 5], [Rejected ''e''], []],
       dispatched =
         [\<lparr> nextTask = \<lparr> id_t = 1, task = ''a'', handle = 0, status = Completed \<rparr>,
             settled = Some (Inr 5), finalized = True \<rparr>,
          \<lparr> nextTask = \<lparr> id_t = 2, task = ''b'', handle = 1, status = Failed \<rparr>,
             settled = Some (Inl ''e''), finalized = False \<rparr>,
          \<lparr> nextTask = \<lparr> id_t = 3, task = ''c'', handle = 2, status = Running \<rparr>,
             settled = None, finalized = False \<rparr>] \<rparr> :: (string, nat, string) scheduler"
  have r: "run (constructor (Some 2)) [AddTask ''a'', AddTask ''b'', AddTask ''c'', TaskFulfils 0 5, Finally 0, TaskFails 1 ''e''] = Some ?S"
    by (simp add: constructor_def addTask_def executeNext_def onFulfilled_def onRejected_def
        onFinally_def Let_def)
  from runningCount_bounds[OF r] have
    "0 \<le> runningCount ?S" "0 \<le> maxConcurrent ?S \<longrightarrow> runningCount ?S \<le> maxConcurrent ?S"
    "maxConcurrent ?S = (case Some 2 of None \<Rightarrow> 3 | Some n \<Rightarrow> n)"
    "runningCount ?S = int (length (filter (\<lambda>c. \<not> finalized c) (dispatched ?S)))"
    by blast+
  with r show ?thesis unfolding Let_def by simp
qed

text \<open>
  C1 as stated fails for a negative bound: after \<^verbatim>\<open>new ConcurrentScheduler(-1)\<close>
  and one submission, \<open>runningCount = 0\<close> exceeds \<open>maxConcurrent = -1\<close>.
\<close>

theorem runningCount_bound_counterexample:
  "run (constructor (Some (- 1))) [AddTask ''a'']
   = Some (\<lparr> maxConcurrent = - 1, runningCount = 0,
       taskQueue = [\<lparr> id_t = 1, task = ''a'', handle = 0, status = Pending \<rparr>], taskId = 1,
       promises = [[]], dispatched = [] \<rparr> :: (string, nat, string) scheduler)
   \<and> \<not> (runningCount (\<lparr> maxConcurrent = - 1, runningCount = 0,
       taskQueue = [\<lparr> id_t = 1, task = ''a'', handle = 0, status = Pending \<rparr>], taskId = 1,
       promises = [[]], dispatched = [] \<rparr> :: (string, nat, string) scheduler)
     \<le> maxConcurrent (\<lparr> maxConcurrent = - 1, runningCount = 0,
       taskQueue = [\<lparr> id_t = 1, task = ''a'', handle = 0, status = Pending \<rparr>], taskId = 1,
       promises = [[]], dispatched = [] \<rparr> :: (string, nat, string) scheduler))"
  by (simp add: constructor_def addTask_def executeNext_def Let_def)

subsection \<open>C2: dispatch in submission order\<close>



subsection \<open>C3: the promise of a task mirrors its outcome\<close>

text \<open>
  C3, as amended. Every submission makes one promise, and the record of the j-th
  submission holds the settling functions of the j-th promise. In every
  reachable state the calls a promise has received are determined by the outcome
  of its task: none while the task is queued or has not settled, exactly one
  \<^verbatim>\<open>resolve(v)\<close> once the task has produced \<open>v\<close>, exactly one \<^verbatim>\<open>reject(e)\<close> once it
  has failed with \<open>e\<close>; so no promise is ever signalled twice, and the value or
  error is passed on unchanged. When the task of a chain produces \<open>v\<close> (fails
  with \<open>e\<close>), the handler settles the promise of that task, which was unsettled,
  with \<open>Resolved v\<close> (\<open>Rejected e\<close>) and touches no other promise; \<^verbatim>\<open>.finally\<close> and
  \<^verbatim>\<open>addTask\<close> touch no existing promise. A promise that has been settled keeps
  its calls in every later state. Every promise does get settled, exactly once,
  when the scheduler has a slot (\<open>maxConcurrent \<ge> 1\<close>) and every started task
  settles: from every reachable state of such a scheduler a run without further
  submissions leads to a state in which every promise has received exactly one
  call, and every state without owed handler runs is such a state.
\<close>

theorem handle_mirrors_outcome:
  assumes "run (constructor m) es = Some s"
  shows "length (promises s) = length (submitted es) \<and>
         map handle (records s) = [0..<length (promises s)] \<and>
         promises s =
           map (\<lambda>c. mirror (settled c)) (dispatched s) @ replicate (length (taskQueue s)) [] \<and>
         (\<forall>h<length (promises s). length (promises s ! h) \<le> 1) \<and>
         (\<forall>k v s'. step (TaskFulfils k v) s = Some s' \<longrightarrow>
            promises s ! handle (nextTask (dispatched s ! k)) = [] \<and>
            promises s' = (promises s) [handle (nextTask (dispatched s ! k)) := [Resolved v]] \<and>
            stateOf (promises s' ! handle (nextTask (dispatched s ! k))) = FulfilledWith v) \<and>
         (\<forall>k e s'. step (TaskFails k e) s = Some s' \<longrightarrow>
            promises s ! handle (nextTask (dispatched s ! k)) = [] \<and>
            promises s' = (promises s) [handle (nextTask (dispatched s ! k)) := [Rejected e]] \<and>
            stateOf (promises s' ! handle (nextTask (dispatched s ! k))) = RejectedWith e) \<and>
         (\<forall>k s'. step (Finally k) s = Some s' \<longrightarrow> promises s' = promises s) \<and>
         (\<forall>t. fst (addTask t s) = length (promises s) \<and>
              promises (snd (addTask t s)) = promises s @ [[]]) \<and>
         (\<forall>fs s' h. run s fs = Some s' \<and> h < length (promises s) \<and> promises s ! h \<noteq> [] \<longrightarrow>
            h < length (promises s') \<and> promises s' ! h = promises s ! h) \<and>
         (1 \<le> maxConcurrent s \<longrightarrow>
            (\<exists>fs s'. list_all (\<lambda>ev. \<not> isAddTask ev) fs \<and> run s fs = Some s' \<and>
               length (promises s') = length (promises s) \<and>
               (\<forall>h<length (promises s). length (promises s' ! h) = 1))) \<and>
         (\<forall>fs s'. run s fs = Some s' \<and> remaining s' = 0 \<longrightarrow>
            (\<forall>h<length (promises s'). length (promises s' ! h) = 1 \<and>
               promises s' ! h = mirror (settled (dispatched s' ! h))))"
proof -
  have hs: "inv_handles s" using assms by (rule reachable_handles)
  have mi: "inv_mirror s" using assms by (rule reachable_mirror)
  have h: "map handle (records s) = [0..<length (promises s)]"
    using hs by (simp add: inv_handles_def)
  have p: "promises s =
           map (\<lambda>c. mirror (settled c)) (dispatched s) @ replicate (length (taskQueue s)) []"
    using mi by (simp add: inv_mirror_def)
  have "length (map handle (records s)) = length (map task (records s))" by simp
  with h map_task_run[OF assms] have l: "length (promises s) = length (submitted es)"
    by (simp add: constructor_def records_def)
  have once: "\<forall>h<length (promises s). length (promises s ! h) \<le> 1"
  proof (intro allI impI)
    fix i assume i: "i < length (promises s)"
    show "length (promises s ! i) \<le> 1"
    proof (cases "i < length (dispatched s)")
      case True
      then have "promises s ! i = mirror (settled (dispatched s ! i))"
        using arg_cong[OF p, of "\<lambda>xs. xs ! i"] by (simp add: nth_append)
      then show ?thesis by (cases "settled (dispatched s ! i)" rule: mirror.cases) simp_all
    next
      case False
      with i have "promises s ! i = []"
        using arg_cong[OF p, of "\<lambda>xs. xs ! i"] arg_cong[OF p, of length]
        by (simp add: nth_append)
      then show ?thesis by simp
    qed
  qed
  have unsettled: "promises s ! handle (nextTask (dispatched s ! k)) = []
      \<and> handle (nextTask (dispatched s ! k)) < length (promises s)"
    if "k < length (dispatched s)" "settled (dispatched s ! k) = None" for k
  proof -
    have "handle (nextTask (dispatched s ! k)) = k" using hs that(1) by (rule inv_handles_nth)
    moreover have "promises s ! k = []" "k < length (promises s)"
      using arg_cong[OF p, of "\<lambda>xs. xs ! k"] arg_cong[OF p, of length] that
      by (simp_all add: nth_append)
    ultimately show ?thesis by simp
  qed
  have ful: "\<forall>k v s'. step (TaskFulfils k v) s = Some s' \<longrightarrow>
            promises s ! handle (nextTask (dispatched s ! k)) = [] \<and>
            promises s' = (promises s) [handle (nextTask (dispatched s ! k)) := [Resolved v]] \<and>
            stateOf (promises s' ! handle (nextTask (dispatched s ! k))) = FulfilledWith v"
    using unsettled by (auto simp add: onFulfilled_def Let_def split: if_splits)
  have rej: "\<forall>k e s'. step (TaskFails k e) s = Some s' \<longrightarrow>
            promises s ! handle (nextTask (dispatched s ! k)) = [] \<and>
            promises s' = (promises s) [handle (nextTask (dispatched s ! k)) := [Rejected e]] \<and>
            stateOf (promises s' ! handle (nextTask (dispatched s ! k))) = RejectedWith e"
    using unsettled by (auto simp add: onRejected_def Let_def split: if_splits)
  have fin: "\<forall>k s'. step (Finally k) s = Some s' \<longrightarrow> promises s' = promises s"
    by (auto split: if_splits)
  have add: "\<forall>t. fst (addTask t s) = length (promises s) \<and>
              promises (snd (addTask t s)) = promises s @ [[]]"
    by simp
  have keep: "\<forall>fs s' h. run s fs = Some s' \<and> h < length (promises s) \<and> promises s ! h \<noteq> [] \<longrightarrow>
            h < length (promises s') \<and> promises s' ! h = promises s ! h"
    using promises_stable_run[OF hs mi] by blast
  have live: "1 \<le> maxConcurrent s \<longrightarrow>
            (\<exists>fs s'. list_all (\<lambda>ev. \<not> isAddTask ev) fs \<and> run s fs = Some s' \<and>
               length (promises s') = length (promises s) \<and>
               (\<forall>h<length (promises s). length (promises s' ! h) = 1))"
  proof
    assume "1 \<le> maxConcurrent s"
    from drain_exists[OF assms this] obtain fs s' where
      fs: "list_all (\<lambda>ev. \<not> isAddTask ev) fs" "run s fs = Some s'" "remaining s' = 0"
      by blast
    have r': "run (constructor m) (es @ fs) = Some s'" using assms fs(2) by (rule reachable_append)
    have len: "length (promises s') = length (promises s)"
      using fs(2,1) by (rule length_promises_run)
    have "\<forall>h<length (promises s'). length (promises s' ! h) = 1"
      using reachable_status[OF r'] reachable_count[OF r'] reachable_mirror[OF r'] fs(3)
      by (rule drained_terminal(4))
    with len have "\<forall>h<length (promises s). length (promises s' ! h) = 1" by simp
    with fs(1,2) len show "\<exists>fs s'. list_all (\<lambda>ev. \<not> isAddTask ev) fs \<and> run s fs = Some s' \<and>
               length (promises s') = length (promises s) \<and>
               (\<forall>h<length (promises s). length (promises s' ! h) = 1)"
      by blast
  qed
  have settled_all: "\<forall>fs s'. run s fs = Some s' \<and> remaining s' = 0 \<longrightarrow>
            (\<forall>h<length (promises s'). length (promises s' ! h) = 1 \<and>
               promises s' ! h = mirror (settled (dispatched s' ! h)))"
  proof (intro allI impI, elim conjE)
    fix fs s' h
    assume run: "run s fs = Some s'" and z: "remaining s' = 0" and h: "h < length (promises s')"
    have r': "run (constructor m) (es @ fs) = Some s'" using assms run by (rule reachable_append)
    have one: "\<forall>h<length (promises s'). length (promises s' ! h) = 1"
      using reachable_status[OF r'] reachable_count[OF r'] reachable_mirror[OF r'] z
      by (rule drained_terminal(4))
    from z have q: "taskQueue s' = []" by (simp add: remaining_zero)
    with reachable_mirror[OF r'] have p': "promises s' = map (\<lambda>c. mirror (settled c)) (dispatched s')"
      by (simp add: inv_mirror_def)
    with h have "h < length (dispatched s')" by (metis length_map)
    then have m: "promises s' ! h = mirror (settled (dispatched s' ! h))"
      using arg_cong[OF p', of "\<lambda>xs. xs ! h"] by simp
    from one h have "length (promises s' ! h) = 1" by blast
    with m show "length (promises s' ! h) = 1 \<and>
               promises s' ! h = mirror (settled (dispatched s' ! h))" by blast
  qed
  from l h p once ful rej fin add keep live settled_all show ?thesis by blast
qed

text \<open>
  The theorem at a scheduler of two slots: the first task produces 5, the second
  fails with \<open>''e''\<close>, the third has not settled; then the third produces 9, and
  once both open chains have finished every promise has received one call.
\<close>

theorem handle_mirrors_outcome_witness:
  "let S = \<lparr> maxConcurrent = 2, runningCount = 2, taskQueue = [], taskId = 3,
       promises = [[Resolved 5], [Rejected ''e''], []],
       dispatched =
         [\<lparr> nextTask = \<lparr> id_t = 1, task = ''a'', handle = 0, status = Completed \<rparr>,
             settled = Some (Inr 5), finalized = True \<rparr>,
          \<lparr> nextTask = \<lparr> id_t = 2, task = ''b'', handle = 1, status = Failed \<rparr>,
             settled = Some (Inl ''e''), finalized = False \<rparr>,
          \<lparr> nextTask = \<lparr> id_t = 3, task = ''c'', handle = 2, status = Running \<rparr>,
             settled = None, finalized = False \<rparr>] \<rparr> :: (string, nat, string) scheduler;
       fs = [Finally 1, TaskFulfils 2 9, Finally 2] :: (string, nat, string) event list;
       D = \<lparr> maxConcurrent = 2, runningCount = 0, taskQueue = [], taskId = 3,
       promises = [[Resolved 5], [Rejected ''e''], [Resolved 9]],
       dispatched =
         [\<lparr> nextTask = \<lparr> id_t = 1, task = ''a'', handle = 0, status = Completed \<rparr>,
             settled = Some (Inr 5), finalized = True \<rparr>,
          \<lparr> nextTask = \<lparr> id_t = 2, task = ''b'', handle = 1, status = Failed \<rparr>,
             settled = Some (Inl ''e''), finalized = True \<rparr>,
          \<lparr> nextTask = \<lparr> id_t = 3, task = ''c'', handle = 2, status = Completed \<rparr>,
             settled = Some (Inr 9), finalized = True \<rparr>] \<rparr> :: (string, nat, string) scheduler
   in run (constructor (Some 2)) [AddTask ''a'', AddTask ''b'', AddTask ''c'', TaskFulfils 0 5, Finally 0, TaskFails 1 ''e''] = Some S \<and>
      promises S = [[Resolved 5], [Rejected ''e''], []] \<and>
      map (\<lambda>c. mirror (settled c)) (dispatched S) = [[Resolved 5], [Rejected ''e''], []] \<and>
      step (TaskFulfils 2 9) S = Some (onFulfilled 2 9 S) \<and>
      promises (onFulfilled 2 9 S) = [[Resolved 5], [Rejected ''e''], [Resolved 9]] \<and>
      1 \<le> maxConcurrent S \<and>
      run S fs = Some D \<and> remaining D = 0 \<and>
      map length (promises D) = [1, 1, 1] \<and>
      promises D ! 2 = mirror (settled (dispatched D ! 2))"
proof -
  let ?S = "\<lparr> maxConcurrent = 2, runningCount = 2, taskQueue = [], taskId = 3,
       promises = [[Resolved 5], [Rejected ''e''], []],
       dispatched =
         [\<lparr> nextTask = \<lparr> id_t = 1, task = ''a'', handle = 0, status = Completed \<rparr>,
             settled = Some (Inr 5), finalized = True \<rparr>,
          \<lparr> nextTask = \<lparr> id_t = 2, task = ''b'', handle = 1, status = Failed \<rparr>,
             settled = Some (Inl ''e''), finalized = False \<rparr>,
          \<lparr> nextTask = \<lparr> id_t = 3, task = ''c'', handle = 2, status = Running \<rparr>,
             settled = None, finalized = False \<rparr>] \<rparr> :: (string, nat, string) scheduler"
  let ?fs = "[Finally 1, TaskFulfils 2 9, Finally 2] :: (string, nat, string) event list"
  let ?D = "\<lparr> maxConcurrent = 2, runningCount = 0, taskQueue = [], taskId = 3,
       promises = [[Resolved 5], [Rejected ''e''], [Resolved 9]],
       dispatched =
         [\<lparr> nextTask = \<lparr> id_t = 1, task = ''a'', handle = 0, status = Completed \<rparr>,
             settled = Some (Inr 5), finalized = True \<rparr>,
          \<lparr> nextTask = \<lparr> id_t = 2, task = ''b'', handle = 1, status = Failed \<rparr>,
             settled = Some (Inl ''e''), finalized = True \<rparr>,
          \<lparr> nextTask = \<lparr> id_t = 3, task = ''c'', handle = 2, status = Completed \<rparr>,
             settled = Some (Inr 9), finalized = True \<rparr>] \<rparr> :: (string, nat, string) scheduler"
  have r: "run (constructor (Some 2)) [AddTask ''a'', AddTask ''b'', AddTask ''c'', TaskFulfils 0 5, Finally 0, TaskFails 1 ''e''] = Some ?S"
    by (simp add: constructor_def addTask_def executeNext_def onFulfilled_def onRejected_def
        onFinally_def Let_def)
  have st: "step (TaskFulfils 2 9) ?S = Some (onFulfilled 2 9 ?S)" by simp
  have d: "run ?S ?fs = Some ?D"
    by (simp add: executeNext_def onFulfilled_def onFinally_def Let_def)
  have z: "remaining ?D = 0" by (simp add: remaining_def owed_def)
  have h2: "2 < length (promises ?D)" by simp
  from handle_mirrors_outcome[OF r] have
    "promises ?S =
       map (\<lambda>c. mirror (settled c)) (dispatched ?S) @ replicate (length (taskQueue ?S)) []"
    and "\<forall>k v s'. step (TaskFulfils k v) ?S = Some s' \<longrightarrow>
            promises ?S ! handle (nextTask (dispatched ?S ! k)) = [] \<and>
            promises s' = (promises ?S) [handle (nextTask (dispatched ?S ! k)) := [Resolved v]] \<and>
            stateOf (promises s' ! handle (nextTask (dispatched ?S ! k))) = FulfilledWith v"
    and "\<forall>fs s'. run ?S fs = Some s' \<and> remaining s' = 0 \<longrightarrow>
            (\<forall>h<length (promises s'). length (promises s' ! h) = 1 \<and>
               promises s' ! h = mirror (settled (dispatched s' ! h)))"
    by blast+
  with st d z h2 have
    "promises ?S =
       map (\<lambda>c. mirror (settled c)) (dispatched ?S) @ replicate (length (taskQueue ?S)) []"
    "promises (onFulfilled 2 9 ?S) = (promises ?S) [handle (nextTask (dispatched ?S ! 2)) := [Resolved 9]]"
    "promises ?D ! 2 = mirror (settled (dispatched ?D ! 2))"
    by blast+
  then have
    "map (\<lambda>c. mirror (settled c)) (dispatched ?S) = [[Resolved 5], [Rejected ''e''], []]"
    "promises (onFulfilled 2 9 ?S) = [[Resolved 5], [Rejected ''e''], [Resolved 9]]"
    "promises ?D ! 2 = mirror (settled (dispatched ?D ! 2))"
    by simp_all
  with r st d z show ?thesis unfolding Let_def by simp
qed

text \<open>
  C3 as stated fails without a slot: after \<^verbatim>\<open>new ConcurrentScheduler(0)\<close> the
  promise that \<^verbatim>\<open>addTask\<close> returns (promise 0) is there and unsettled in every
  state the scheduler can reach, whatever happens: it is never settled, not once.
\<close>

theorem handle_never_settled_counterexample:
  "fst (addTask ''a'' (constructor (Some 0) :: (string, nat, string) scheduler)) = 0 \<and>
   run (constructor (Some 0)) [AddTask ''a'']
   = Some (\<lparr> maxConcurrent = 0, runningCount = 0,
       taskQueue = [\<lparr> id_t = 1, task = ''a'', handle = 0, status = Pending \<rparr>],
       taskId = 1, promises = [[]], dispatched = [] \<rparr> :: (string, nat, string) scheduler) \<and>
   \<not> (\<exists>fs s'. run (\<lparr> maxConcurrent = 0, runningCount = 0,
       taskQueue = [\<lparr> id_t = 1, task = ''a'', handle = 0, status = Pending \<rparr>],
       taskId = 1, promises = [[]], dispatched = [] \<rparr> :: (string, nat, string) scheduler) fs = Some s' \<and>
          \<not> (0 < length (promises s') \<and> promises s' ! 0 = []))"
proof -
  let ?Z = "\<lparr> maxConcurrent = 0, runningCount = 0,
       taskQueue = [\<lparr> id_t = 1, task = ''a'', handle = 0, status = Pending \<rparr>],
       taskId = 1, promises = [[]], dispatched = [] \<rparr> :: (string, nat, string) scheduler"
  have a: "fst (addTask ''a'' (constructor (Some 0) :: (string, nat, string) scheduler)) = 0"
    by (simp add: constructor_def)
  have r: "run (constructor (Some 0)) [AddTask ''a''] = Some ?Z"
    by (simp add: constructor_def addTask_def executeNext_def Let_def)
  have never: "0 < length (promises s') \<and> promises s' ! 0 = []" if "run ?Z fs = Some s'" for fs s'
  proof -
    have r': "run (constructor (Some 0)) ([AddTask ''a''] @ fs) = Some s'"
      using r that by (rule reachable_append)
    have d: "dispatched s' = []"
      using idle_run[OF _ _ _ r'] by (simp add: constructor_def)
    have "map task (records s') = submitted ([AddTask ''a''] @ fs)"
      using map_task_run[OF r'] by (simp add: constructor_def records_def)
    then have "length (map task (taskQueue s')) = length (submitted ([AddTask ''a''] @ fs))"
      using d by (simp add: records_def)
    then have q: "0 < length (taskQueue s')" by simp
    have p: "promises s' = replicate (length (taskQueue s')) []"
      using reachable_mirror[OF r'] d by (simp add: inv_mirror_def)
    from p q have "0 < length (promises s')" by (metis length_replicate)
    moreover from p q have "promises s' ! 0 = []" by (metis nth_replicate)
    ultimately show ?thesis by simp
  qed
  then have "\<not> (\<exists>fs s'. run ?Z fs = Some s' \<and>
          \<not> (0 < length (promises s') \<and> promises s' ! 0 = []))"
    by blast
  with a r show ?thesis by blast
qed

subsection \<open>C4: a failing task is isolated\<close>

text \<open>
  C4. Let the task of chain \<open>k\<close> be in flight in a reachable state and fail with
  \<open>e\<close>. The handler of \<^verbatim>\<open>.catch\<close> runs: it marks the record \<open>Failed\<close>, rejects the
  promise of that task with \<open>e\<close> and changes nothing else: not \<open>maxConcurrent\<close>,
  \<open>runningCount\<close>, the queue or \<open>taskId\<close>, no other chain and no other promise.
  Then the handler of \<^verbatim>\<open>.finally\<close> can run: it decrements \<open>runningCount\<close> and
  calls \<^verbatim>\<open>executeNext\<close>, which dispatches the head of the queue if there is one,
  so that the count is back at its value and the queue is one shorter. The
  scheduling view of the result is the one reached had the task succeeded with
  any value \<open>v\<close>, and every continuation that is possible after the success is
  possible after the failure, whatever the outcomes of the other tasks, and
  leads to the same scheduling view.
\<close>

theorem failure_isolated:
  assumes "run (constructor m) es = Some s"
    and "k < length (dispatched s)" and "settled (dispatched s ! k) = None"
  shows "step (TaskFails k e) s = Some (onRejected k e s) \<and>
         status (nextTask (dispatched (onRejected k e s) ! k)) = Failed \<and>
         promises (onRejected k e s) =
           (promises s) [handle (nextTask (dispatched s ! k)) := [Rejected e]] \<and>
         maxConcurrent (onRejected k e s) = maxConcurrent s \<and>
         runningCount (onRejected k e s) = runningCount s \<and>
         taskQueue (onRejected k e s) = taskQueue s \<and>
         taskId (onRejected k e s) = taskId s \<and>
         (\<forall>j<length (dispatched s). j \<noteq> k \<longrightarrow>
            dispatched (onRejected k e s) ! j = dispatched s ! j) \<and>
         step (Finally k) (onRejected k e s) = Some (onFinally k (onRejected k e s)) \<and>
         onFinally k (onRejected k e s) =
           executeNext ((onRejected k e s)
             \<lparr> runningCount := runningCount s - 1,
               dispatched := (dispatched (onRejected k e s))
                 [k := (dispatched (onRejected k e s) ! k) \<lparr> finalized := True \<rparr>] \<rparr>) \<and>
         maxConcurrent (onFinally k (onRejected k e s)) = maxConcurrent s \<and>
         runningCount (onFinally k (onRejected k e s)) =
           (if taskQueue s = [] then runningCount s - 1 else runningCount s) \<and>
         taskQueue (onFinally k (onRejected k e s)) = drop 1 (taskQueue s) \<and>
         length (dispatched (onFinally k (onRejected k e s))) =
           length (dispatched s) + (if taskQueue s = [] then 0 else 1) \<and>
         scheduling (onFinally k (onRejected k e s)) = scheduling (onFinally k (onFulfilled k v s)) \<and>
         (\<forall>fs fs' t. list_all2 same_shape fs fs' \<and> run (onFulfilled k v s) fs = Some t \<longrightarrow>
            (\<exists>t'. run (onRejected k e s) fs' = Some t' \<and> scheduling t' = scheduling t))"
proof -
  let ?r = "onRejected k e s"
  have hs: "inv_handles s" using assms(1) by (rule reachable_handles)
  have mi: "inv_mirror s" using assms(1) by (rule reachable_mirror)
  have st: "inv_status s" using assms(1) by (rule reachable_status)
  have bu: "inv_busy s" using assms(1) by (rule reachable_busy)
  have bo: "inv_bound s" using assms(1) by (rule reachable_bound)
  have co: "inv_count s" using assms(1) by (rule reachable_count)
  have nf: "\<not> finalized (dispatched s ! k)"
    using st assms(2,3) by (auto simp add: inv_status_def list_all_length)
  have c1: "step (TaskFails k e) s = Some ?r" using assms(2,3) by simp
  have c2: "status (nextTask (dispatched ?r ! k)) = Failed"
    using assms(2) by (simp add: onRejected_def Let_def)
  have hk: "handle (nextTask (dispatched s ! k)) = k" using hs assms(2) by (rule inv_handles_nth)
  have "promises s ! k = []"
    using mi assms(2,3) by (simp add: inv_mirror_def nth_append)
  then have c3: "promises ?r = (promises s) [handle (nextTask (dispatched s ! k)) := [Rejected e]]"
    by (simp add: onRejected_def Let_def hk)
  have c4: "maxConcurrent ?r = maxConcurrent s" "runningCount ?r = runningCount s"
    "taskQueue ?r = taskQueue s" "taskId ?r = taskId s"
    by simp_all
  have c5: "\<forall>j<length (dispatched s). j \<noteq> k \<longrightarrow> dispatched ?r ! j = dispatched s ! j"
    by (simp add: onRejected_def Let_def)
  have dk: "k < length (dispatched ?r)" "settled (dispatched ?r ! k) \<noteq> None"
    "\<not> finalized (dispatched ?r ! k)"
    using assms(2) nf by (simp_all add: onRejected_def Let_def)
  then have c6: "step (Finally k) ?r = Some (onFinally k ?r)" by simp
  have c7: "onFinally k ?r =
           executeNext (?r \<lparr> runningCount := runningCount s - 1,
               dispatched := (dispatched ?r) [k := (dispatched ?r ! k) \<lparr> finalized := True \<rparr>] \<rparr>)"
    by (simp add: onFinally_def)
  have c8: "maxConcurrent (onFinally k ?r) = maxConcurrent s" by simp
  have pos: "1 \<le> runningCount s"
  proof -
    have "dispatched s ! k \<in> set (filter (\<lambda>c. \<not> finalized c) (dispatched s))"
      using assms(2) nf by simp
    then have "0 < length (filter (\<lambda>c. \<not> finalized c) (dispatched s))"
      by (metis length_pos_if_in_set)
    then have "1 \<le> int (length (filter (\<lambda>c. \<not> finalized c) (dispatched s)))" by linarith
    with co show ?thesis by (simp only: inv_count_def)
  qed
  have full: "runningCount s = maxConcurrent s" if "taskQueue s \<noteq> []"
    using that bu bo pos by (simp add: inv_busy_def inv_bound_def max_def split: if_splits)
  have c9: "runningCount (onFinally k ?r) = (if taskQueue s = [] then runningCount s - 1 else runningCount s)"
    and c10: "taskQueue (onFinally k ?r) = drop 1 (taskQueue s)"
    and c11: "length (dispatched (onFinally k ?r)) =
           length (dispatched s) + (if taskQueue s = [] then 0 else 1)"
    using full
    by (auto simp add: onFinally_def executeNext_def onRejected_def Let_def split: list.split)
  have "scheduling ?r = scheduling (onFulfilled k v s)"
    using assms(2) by (intro scheduling_settle(3)) simp_all
  then have c12: "scheduling (onFinally k ?r) = scheduling (onFinally k (onFulfilled k v s))"
    using dk(1) by (rule scheduling_finally)
  have sv: "scheduling (onFulfilled k v s) = scheduling ?r"
    using assms(2) by (intro scheduling_settle(2)) simp_all
  have c13: "\<forall>fs fs' t. list_all2 same_shape fs fs' \<and> run (onFulfilled k v s) fs = Some t \<longrightarrow>
            (\<exists>t'. run ?r fs' = Some t' \<and> scheduling t' = scheduling t)"
  proof (intro allI impI, elim conjE)
    fix fs fs' :: "('a, 'b, 'c) event list" and t
    assume "list_all2 same_shape fs fs'" "run (onFulfilled k v s) fs = Some t"
    from scheduling_run[OF this(1) sv this(2)]
    show "\<exists>t'. run ?r fs' = Some t' \<and> scheduling t' = scheduling t" by auto
  qed
  from c1 c2 c3 c4 c5 c6 c7 c8 c9 c10 c11 c12 c13 show ?thesis by blast
qed

text \<open>
  The theorem at a scheduler of one slot with task 1 running and tasks 2 and 3
  queued: task 1 fails with \<open>''boom''\<close>; its promise is rejected with
  \<open>''boom''\<close>, and after \<^verbatim>\<open>.finally\<close> task 2 runs, as it would after a success
  with the value 7.
\<close>

theorem failure_isolated_witness:
  "let S = \<lparr> maxConcurrent = 1, runningCount = 1,
       taskQueue = [\<lparr> id_t = 2, task = ''b'', handle = 1, status = Pending \<rparr>,
                    \<lparr> id_t = 3, task = ''c'', handle = 2, status = Pending \<rparr>],
       taskId = 3, promises = [[], [], []],
       dispatched =
         [\<lparr> nextTask = \<lparr> id_t = 1, task = ''a'', handle = 0, status = Running \<rparr>,
             settled = None, finalized = False \<rparr>] \<rparr> :: (string, nat, string) scheduler;
       R = \<lparr> maxConcurrent = 1, runningCount = 1,
       taskQueue = [\<lparr> id_t = 2, task = ''b'', handle = 1, status = Pending \<rparr>,
                    \<lparr> id_t = 3, task = ''c'', handle = 2, status = Pending \<rparr>],
       taskId = 3, promises = [[Rejected ''boom''], [], []],
       dispatched =
         [\<lparr> nextTask = \<lparr> id_t = 1, task = ''a'', handle = 0, status = Failed \<rparr>,
             settled = Some (Inl ''boom''), finalized = False \<rparr>] \<rparr> :: (string, nat, string) scheduler;
       F = \<lparr> maxConcurrent = 1, runningCount = 1,
       taskQueue = [\<lparr> id_t = 3, task = ''c'', handle = 2, status = Pending \<rparr>],
       taskId = 3, promises = [[Rejected ''boom''], [], []],
       dispatched =
         [\<lparr> nextTask = \<lparr> id_t = 1, task = ''a'', handle = 0, status = Failed \<rparr>,
             settled = Some (Inl ''boom''), finalized = True \<rparr>,
          \<lparr> nextTask = \<lparr> id_t = 2, task = ''b'', handle = 1, status = Running \<rparr>,
             settled = None, finalized = False \<rparr>] \<rparr> :: (string, nat, string) scheduler
   in run (constructor (Some 1)) [AddTask ''a'', AddTask ''b'', AddTask ''c''] = Some S \<and>
      0 < length (dispatched S) \<and> settled (dispatched S ! 0) = None \<and>
      step (TaskFails 0 ''boom'') S = Some R \<and>
      step (Finally 0) R = Some F \<and>
      scheduling F = scheduling (onFinally 0 (onFulfilled 0 7 S))"
proof -
  let ?S = "\<lparr> maxConcurrent = 1, runningCount = 1,
       taskQueue = [\<lparr> id_t = 2, task = ''b'', handle = 1, status = Pending \<rparr>,
                    \<lparr> id_t = 3, task = ''c'', handle = 2, status = Pending \<rparr>],
       taskId = 3, promises = [[], [], []],
       dispatched =
         [\<lparr> nextTask = \<lparr> id_t = 1, task = ''a'', handle = 0, status = Running \<rparr>,
             settled = None, finalized = False \<rparr>] \<rparr> :: (string, nat, string) scheduler"
  let ?R = "\<lparr> maxConcurrent = 1, runningCount = 1,
       taskQueue = [\<lparr> id_t = 2, task = ''b'', handle = 1, status = Pending \<rparr>,
                    \<lparr> id_t = 3, task = ''c'', handle = 2, status = Pending \<rparr>],
       taskId = 3, promises = [[Rejected ''boom''], [], []],
       dispatched =
         [\<lparr> nextTask = \<lparr> id_t = 1, task = ''a'', handle = 0, status = Failed \<rparr>,
             settled = Some (Inl ''boom''), finalized = False \<rparr>] \<rparr> :: (string, nat, string) scheduler"
  let ?F = "\<lparr> maxConcurrent = 1, runningCount = 1,
       taskQueue = [\<lparr> id_t = 3, task = ''c'', handle = 2, status = Pending \<rparr>],
       taskId = 3, promises = [[Rejected ''boom''], [], []],
       dispatched =
         [\<lparr> nextTask = \<lparr> id_t = 1, task = ''a'', handle = 0, status = Failed \<rparr>,
             settled = Some (Inl ''boom''), finalized = True \<rparr>,
          \<lparr> nextTask = \<lparr> id_t = 2, task = ''b'', handle = 1, status = Running \<rparr>,
             settled = None, finalized = False \<rparr>] \<rparr> :: (string, nat, string) scheduler"
  have r: "run (constructor (Some 1)) [AddTask ''a'', AddTask ''b'', AddTask ''c''] = Some ?S"
    by (simp add: constructor_def addTask_def executeNext_def Let_def)
  have k: "0 < length (dispatched ?S)" "settled (dispatched ?S ! 0) = None" by simp_all
  have R: "onRejected 0 ''boom'' ?S = ?R" by (simp add: onRejected_def Let_def)
  have F: "onFinally 0 ?R = ?F" by (simp add: onFinally_def executeNext_def)
  from failure_isolated[OF r k, of "''boom''" 7] have
    "step (TaskFails 0 ''boom'') ?S = Some (onRejected 0 ''boom'' ?S)"
    "step (Finally 0) (onRejected 0 ''boom'' ?S) = Some (onFinally 0 (onRejected 0 ''boom'' ?S))"
    "scheduling (onFinally 0 (onRejected 0 ''boom'' ?S)) = scheduling (onFinally 0 (onFulfilled 0 7 ?S))"
    by blast+
  then have
    "step (TaskFails 0 ''boom'') ?S = Some ?R"
    "step (Finally 0) ?R = Some ?F"
    "scheduling ?F = scheduling (onFinally 0 (onFulfilled 0 7 ?S))"
    unfolding R F by blast+
  with r k show ?thesis unfolding Let_def by blast
qed

subsection \<open>C5: the queue drains\<close>

text \<open>
  C5, as amended. Take a scheduler constructed with \<open>maxConcurrent \<ge> 1\<close> in any
  reachable state, and let no further task be submitted. \<open>remaining\<close> counts the
  handler runs the state still owes. Every handler run lowers it by one, so at
  most \<open>remaining\<close> more of them can happen. As long as it is not 0, some chain is
  in flight: it waits for its task, whose outcome the chain accepts whenever it
  comes, or its \<^verbatim>\<open>.finally\<close> handler is ready to run. A run to 0 exists. Once it
  is 0, the queue is empty, \<open>runningCount\<close> is 0, every record is \<open>Completed\<close> or
  \<open>Failed\<close>, every promise has been signalled exactly once, and no handler can
  run any more. So if every started task settles, all queued and running tasks
  reach a terminal status after exactly \<open>remaining\<close> handler runs.
\<close>

theorem drain_completes:
  assumes "run (constructor m) es = Some s" and "1 \<le> maxConcurrent s"
    and "run s fs = Some s'" and "list_all (\<lambda>ev. \<not> isAddTask ev) fs"
  shows "remaining s' + length fs = remaining s \<and>
         (remaining s' \<noteq> 0 \<longrightarrow>
            (\<exists>k<length (dispatched s'). \<not> finalized (dispatched s' ! k) \<and>
               (if settled (dispatched s' ! k) = None
                then (\<forall>v. step (TaskFulfils k v) s' \<noteq> None) \<and>
                     (\<forall>e. step (TaskFails k e) s' \<noteq> None)
                else step (Finally k) s' \<noteq> None))) \<and>
         (\<exists>gs t. list_all (\<lambda>ev. \<not> isAddTask ev) gs \<and> run s' gs = Some t \<and> remaining t = 0) \<and>
         (remaining s' = 0 \<longrightarrow>
            taskQueue s' = [] \<and> runningCount s' = 0 \<and>
            (\<forall>w\<in>set (records s'). status w = Completed \<or> status w = Failed) \<and>
            (\<forall>h<length (promises s'). length (promises s' ! h) = 1) \<and>
            (\<forall>ev. \<not> isAddTask ev \<longrightarrow> step ev s' = None))"
proof -
  have r': "run (constructor m) (es @ fs) = Some s'"
    using assms(1,3) by (rule reachable_append)
  have m': "1 \<le> maxConcurrent s'" using maxConcurrent_run[OF assms(3)] assms(2) by simp
  have st: "inv_status s" using assms(1) by (rule reachable_status)
  have st': "inv_status s'" and co': "inv_count s'" and bu': "inv_busy s'" and mi': "inv_mirror s'"
    using r' by (rule reachable_status reachable_count reachable_busy reachable_mirror)+
  have c1: "remaining s' + length fs = remaining s"
    using st assms(3,4) by (rule remaining_run)
  have c2: "remaining s' \<noteq> 0 \<longrightarrow>
            (\<exists>k<length (dispatched s'). \<not> finalized (dispatched s' ! k) \<and>
               (if settled (dispatched s' ! k) = None
                then (\<forall>v. step (TaskFulfils k v) s' \<noteq> None) \<and>
                     (\<forall>e. step (TaskFails k e) s' \<noteq> None)
                else step (Finally k) s' \<noteq> None))"
    using next_handler[OF bu' co' m'] by blast
  have c3: "\<exists>gs t. list_all (\<lambda>ev. \<not> isAddTask ev) gs \<and> run s' gs = Some t \<and> remaining t = 0"
    using r' m' by (rule drain_exists)
  have c4: "remaining s' = 0 \<longrightarrow>
            taskQueue s' = [] \<and> runningCount s' = 0 \<and>
            (\<forall>w\<in>set (records s'). status w = Completed \<or> status w = Failed) \<and>
            (\<forall>h<length (promises s'). length (promises s' ! h) = 1) \<and>
            (\<forall>ev. \<not> isAddTask ev \<longrightarrow> step ev s' = None)"
    using drained_terminal[OF st' co' mi'] quiet_when_drained[OF st'] by blast
  from c1 c2 c3 c4 show ?thesis by blast
qed

text \<open>
  The theorem at a scheduler of one slot with task 1 running and task 2 queued:
  four handler runs are owed, and after them (task 1 succeeds, task 2 fails)
  nothing is queued or running.
\<close>

theorem drain_completes_witness:
  "let S = \<lparr> maxConcurrent = 1, runningCount = 1,
       taskQueue = [\<lparr> id_t = 2, task = ''b'', handle = 1, status = Pending \<rparr>],
       taskId = 2, promises = [[], []],
       dispatched =
         [\<lparr> nextTask = \<lparr> id_t = 1, task = ''a'', handle = 0, status = Running \<rparr>,
             settled = None, finalized = False \<rparr>] \<rparr> :: (string, nat, string) scheduler;
       fs = [TaskFulfils 0 7, Finally 0, TaskFails 1 ''boom'', Finally 1] :: (string, nat, string) event list;
       D = \<lparr> maxConcurrent = 1, runningCount = 0, taskQueue = [],
       taskId = 2, promises = [[Resolved 7], [Rejected ''boom'']],
       dispatched =
         [\<lparr> nextTask = \<lparr> id_t = 1, task = ''a'', handle = 0, status = Completed \<rparr>,
             settled = Some (Inr 7), finalized = True \<rparr>,
          \<lparr> nextTask = \<lparr> id_t = 2, task = ''b'', handle = 1, status = Failed \<rparr>,
             settled = Some (Inl ''boom''), finalized = True \<rparr>] \<rparr> :: (string, nat, string) scheduler
   in run (constructor (Some 1)) [AddTask ''a'', AddTask ''b''] = Some S \<and>
      1 \<le> maxConcurrent S \<and>
      run S fs = Some D \<and>
      list_all (\<lambda>ev. \<not> isAddTask ev) fs \<and>
      remaining S = 4 \<and> length fs = 4 \<and> remaining D = 0 \<and>
      taskQueue D = [] \<and> runningCount D = 0 \<and>
      map status (records D) = [Completed, Failed] \<and>
      map length (promises D) = [1, 1]"
proof -
  let ?S = "\<lparr> maxConcurrent = 1, runningCount = 1,
       taskQueue = [\<lparr> id_t = 2, task = ''b'', handle = 1, status = Pending \<rparr>],
       taskId = 2, promises = [[], []],
       dispatched =
         [\<lparr> nextTask = \<lparr> id_t = 1, task = ''a'', handle = 0, status = Running \<rparr>,
             settled = None, finalized = False \<rparr>] \<rparr> :: (string, nat, string) scheduler"
  let ?D = "\<lparr> maxConcurrent = 1, runningCount = 0, taskQueue = [],
       taskId = 2, promises = [[Resolved 7], [Rejected ''boom'']],
       dispatched =
         [\<lparr> nextTask = \<lparr> id_t = 1, task = ''a'', handle = 0, status = Completed \<rparr>,
             settled = Some (Inr 7), finalized = True \<rparr>,
          \<lparr> nextTask = \<lparr> id_t = 2, task = ''b'', handle = 1, status = Failed \<rparr>,
             settled = Some (Inl ''boom''), finalized = True \<rparr>] \<rparr> :: (string, nat, string) scheduler"
  let ?fs = "[TaskFulfils 0 7, Finally 0, TaskFails 1 ''boom'', Finally 1] :: (string, nat, string) event list"
  have r: "run (constructor (Some 1)) [AddTask ''a'', AddTask ''b''] = Some ?S"
    by (simp add: constructor_def addTask_def executeNext_def Let_def)
  have m: "1 \<le> maxConcurrent ?S" by simp
  have d: "run ?S ?fs = Some ?D"
    by (simp add: executeNext_def onFulfilled_def onRejected_def onFinally_def Let_def)
  have n: "list_all (\<lambda>ev. \<not> isAddTask ev) ?fs" by simp
  have rs: "remaining ?S = 4" by (simp add: remaining_def owed_def)
  from drain_completes[OF r m d n] have
    "remaining ?D + length ?fs = remaining ?S"
    "remaining ?D = 0 \<longrightarrow> taskQueue ?D = [] \<and> runningCount ?D = 0"
    by blast+
  with rs have "remaining ?D = 0" "taskQueue ?D = []" "runningCount ?D = 0" by simp_all
  with r m d n rs show ?thesis unfolding Let_def by (simp add: records_def)
qed

text \<open>
  C5 as stated fails without a slot: after \<^verbatim>\<open>new ConcurrentScheduler(0)\<close> and one
  submission nothing runs and no task is awaited, yet the task stays queued:
  no sequence of events without a submission leads to an empty queue.
\<close>

theorem drain_counterexample:
  "run (constructor (Some 0)) [AddTask ''a'']
   = Some (\<lparr> maxConcurrent = 0, runningCount = 0,
       taskQueue = [\<lparr> id_t = 1, task = ''a'', handle = 0, status = Pending \<rparr>],
       taskId = 1, promises = [[]], dispatched = [] \<rparr> :: (string, nat, string) scheduler)
   \<and> runningCount (\<lparr> maxConcurrent = 0, runningCount = 0,
       taskQueue = [\<lparr> id_t = 1, task = ''a'', handle = 0, status = Pending \<rparr>],
       taskId = 1, promises = [[]], dispatched = [] \<rparr> :: (string, nat, string) scheduler) = 0
   \<and> \<not> (\<exists>fs s'. list_all (\<lambda>ev. \<not> isAddTask ev) fs \<and>
          run (\<lparr> maxConcurrent = 0, runningCount = 0,
       taskQueue = [\<lparr> id_t = 1, task = ''a'', handle = 0, status = Pending \<rparr>],
       taskId = 1, promises = [[]], dispatched = [] \<rparr> :: (string, nat, string) scheduler) fs = Some s' \<and>
          taskQueue s' = [])"
proof -
  let ?Z = "\<lparr> maxConcurrent = 0, runningCount = 0,
       taskQueue = [\<lparr> id_t = 1, task = ''a'', handle = 0, status = Pending \<rparr>],
       taskId = 1, promises = [[]], dispatched = [] \<rparr> :: (string, nat, string) scheduler"
  have r: "run (constructor (Some 0)) [AddTask ''a''] = Some ?Z"
    by (simp add: constructor_def addTask_def executeNext_def Let_def)
  have "taskQueue s' \<noteq> []"
    if "list_all (\<lambda>ev. \<not> isAddTask ev) fs" "run ?Z fs = Some s'" for fs s'
  proof -
    have "list_all isAddTask fs" using idle_run[OF _ _ _ that(2)] by simp
    with that(1) have "fs = []" by (cases fs) simp_all
    with that(2) show ?thesis by auto
  qed
  with r show ?thesis by auto
qed

subsection \<open>C6: the queue holds pending records only\<close>



subsection \<open>C7: task ids\<close>




subsection \<open>C8: the status snapshot\<close>

text \<open>
  C8. \<^verbatim>\<open>getStatus\<close> returns \<open>maxConcurrent\<close>, the current \<open>runningCount\<close>, the
  length of the queue and the id and status of each queued record in queue
  order, and it leaves every field of the state as it was. In a reachable state
  every listed status is \<open>Pending\<close>, the number of waiting records is the number
  of records with status \<open>Pending\<close> among all records of the scheduler, and the
  running count reported is the number of chains that have not finished.
\<close>

theorem getStatus_snapshot:
  assumes "run (constructor m) es = Some s"
  shows "snd (getStatus s) = s \<and>
         fst (getStatus s) =
           \<lparr> s_maxConcurrent = maxConcurrent s, s_running = runningCount s,
             s_waiting = length (taskQueue s),
             s_tasks = map (\<lambda>w. (id_t w, status w)) (taskQueue s) \<rparr> \<and>
         s_tasks (fst (getStatus s)) = map (\<lambda>w. (id_t w, Pending)) (taskQueue s) \<and>
         s_waiting (fst (getStatus s)) = length (filter (\<lambda>w. status w = Pending) (records s)) \<and>
         s_running (fst (getStatus s)) =
           int (length (filter (\<lambda>c. \<not> finalized c) (dispatched s))) \<and>
         (\<forall>t :: ('t, 'v, 'e) scheduler. snd (getStatus t) = t)"
proof -
  have st: "inv_status s" using assms by (rule reachable_status)
  have q: "\<forall>w\<in>set (taskQueue s). status w = Pending"
    using st by (simp add: inv_status_def list_all_iff)
  have d: "\<forall>c\<in>set (dispatched s). status (nextTask c) \<noteq> Pending"
  proof
    fix c assume "c \<in> set (dispatched s)"
    with st have "status (nextTask c) = statusOf (settled c)"
      by (simp add: inv_status_def list_all_iff)
    then show "status (nextTask c) \<noteq> Pending"
      by (cases "settled c" rule: statusOf.cases) simp_all
  qed
  have c: "runningCount s = int (length (filter (\<lambda>c. \<not> finalized c) (dispatched s)))"
    using reachable_count[OF assms] by (simp add: inv_count_def)
  have tasks: "map (\<lambda>w. (id_t w, status w)) (taskQueue s) = map (\<lambda>w. (id_t w, Pending)) (taskQueue s)"
    using q by simp
  have "filter (\<lambda>w. status w = Pending) (map nextTask (dispatched s)) = []"
    using d by (simp add: filter_empty_conv)
  moreover have "filter (\<lambda>w. status w = Pending) (taskQueue s) = taskQueue s"
    using q by (simp add: filter_id_conv)
  ultimately have w: "length (filter (\<lambda>w. status w = Pending) (records s)) = length (taskQueue s)"
    by (simp add: records_def)
  show ?thesis using tasks w c by (simp add: getStatus_def)
qed

text \<open>The theorem in a state with one running and two waiting tasks.\<close>

theorem getStatus_snapshot_witness:
  "let S = \<lparr> maxConcurrent = 1, runningCount = 1,
       taskQueue = [\<lparr> id_t = 2, task = ''b'', handle = 1, status = Pending \<rparr>,
                    \<lparr> id_t = 3, task = ''c'', handle = 2, status = Pending \<rparr>],
       taskId = 3, promises = [[], [], []],
       dispatched =
         [\<lparr> nextTask = \<lparr> id_t = 1, task = ''a'', handle = 0, status = Running \<rparr>,
             settled = None, finalized = False \<rparr>] \<rparr> :: (string, nat, string) scheduler
   in run (constructor (Some 1)) [AddTask ''a'', AddTask ''b'', AddTask ''c''] = Some S \<and>
      getStatus S =
        (\<lparr> s_maxConcurrent = 1, s_running = 1, s_waiting = 2,
           s_tasks = [(2, Pending), (3, Pending)] \<rparr>, S)"
proof -
  let ?S = "\<lparr> maxConcurrent = 1, runningCount = 1,
       taskQueue = [\<lparr> id_t = 2, task = ''b'', handle = 1, status = Pending \<rparr>,
                    \<lparr> id_t = 3, task = ''c'', handle = 2, status = Pending \<rparr>],
       taskId = 3, promises = [[], [], []],
       dispatched =
         [\<lparr> nextTask = \<lparr> id_t = 1, task = ''a'', handle = 0, status = Running \<rparr>,
             settled = None, finalized = False \<rparr>] \<rparr> :: (string, nat, string) scheduler"
  have r: "run (constructor (Some 1)) [AddTask ''a'', AddTask ''b'', AddTask ''c''] = Some ?S"
    by (simp add: constructor_def addTask_def executeNext_def Let_def)
  from getStatus_snapshot[OF r] have
    "snd (getStatus ?S) = ?S"
    "fst (getStatus ?S) =
           \<lparr> s_maxConcurrent = maxConcurrent ?S, s_running = runningCount ?S,
             s_waiting = length (taskQueue ?S),
             s_tasks = map (\<lambda>w. (id_t w, status w)) (taskQueue ?S) \<rparr>"
    by blast+
  then have "getStatus ?S = (\<lparr> s_maxConcurrent = 1, s_running = 1, s_waiting = 2,
          s_tasks = [(2, Pending), (3, Pending)] \<rparr>, ?S)"
    by (simp add: prod_eq_iff)
  with r show ?thesis unfolding Let_def by simp
qed

subsection \<open>C9: no check of the configuration\<close>

text \<open>
  C9, as amended. The constructor rejects nothing: for every argument, also one
  below 1, \<^verbatim>\<open>new ConcurrentScheduler(m)\<close> completes without an error and yields a
  scheduler with that \<open>maxConcurrent\<close> (3 when the argument is absent), a running
  count of 0, an empty queue and \<open>taskId\<close> 0.
\<close>

theorem constructor_accepts_any:
  "new_ConcurrentScheduler m =
     Inr \<lparr> maxConcurrent = (case m of None \<Rightarrow> 3 | Some n \<Rightarrow> n), runningCount = 0,
           taskQueue = [], taskId = 0, promises = [], dispatched = [] \<rparr>"
  by (simp add: new_ConcurrentScheduler_def constructor_def)

text \<open>
  C9 as stated fails: \<^verbatim>\<open>new ConcurrentScheduler(0)\<close> raises nothing and returns a
  scheduler whose \<open>maxConcurrent\<close> is 0.
\<close>

theorem constructor_rejects_counterexample:
  "(0::int) < 1 \<and>
   (new_ConcurrentScheduler (Some 0) :: ConstructionError + (string, nat, string) scheduler) =
     Inr \<lparr> maxConcurrent = 0, runningCount = 0, taskQueue = [], taskId = 0,
           promises = [], dispatched = [] \<rparr> \<and>
   \<not> isl (new_ConcurrentScheduler (Some 0) :: ConstructionError + (string, nat, string) scheduler)"
  by (simp add: new_ConcurrentScheduler_def constructor_def)

subsection \<open>C10: a scheduler without slots\<close>

text \<open>
  C10. A scheduler constructed with \<open>maxConcurrent \<le> 0\<close> accepts submissions and
  starts nothing. In every state it reaches, the running count is 0, there is
  no chain, the queue holds every submitted task in submission order with status
  \<open>Pending\<close>, and no promise returned by \<^verbatim>\<open>addTask\<close> has been settled. The only
  events that can happen are submissions. \<^verbatim>\<open>addTask\<close> returns the new promise
  and appends the new record to the queue.
\<close>

theorem no_slots_no_dispatch:
  assumes "n \<le> 0" and "run (constructor (Some n)) es = Some s"
  shows "runningCount s = 0 \<and> dispatched s = [] \<and> list_all isAddTask es \<and>
         map task (taskQueue s) = submitted es \<and>
         (\<forall>w\<in>set (taskQueue s). status w = Pending) \<and>
         length (promises s) = length (submitted es) \<and>
         (\<forall>h<length (promises s). stateOf (promises s ! h) = Unsettled) \<and>
         (\<forall>t. addTask t s =
            (length (promises s),
             s \<lparr> promises := promises s @ [[]], taskId := taskId s + 1,
                 taskQueue := taskQueue s @
                   [\<lparr> id_t = taskId s + 1, task = t, handle = length (promises s),
                      status = Pending \<rparr>] \<rparr>))"
proof -
  have idle: "list_all isAddTask es" "dispatched s = []" "runningCount s = 0"
    using idle_run[OF _ _ _ assms(2)] assms(1) by (simp_all add: constructor_def)
  have mc: "maxConcurrent s \<le> 0"
    using maxConcurrent_run[OF assms(2)] assms(1) by (simp add: constructor_def)
  have t: "map task (taskQueue s) = submitted es"
    using map_task_run[OF assms(2)] idle(2) by (simp add: constructor_def records_def)
  have q: "\<forall>w\<in>set (taskQueue s). status w = Pending"
    using reachable_status[OF assms(2)] by (simp add: inv_status_def list_all_iff)
  have p: "promises s = replicate (length (taskQueue s)) []"
    using reachable_mirror[OF assms(2)] idle(2) by (simp add: inv_mirror_def)
  have "length (promises s) = length (map task (taskQueue s))"
    using arg_cong[OF p, of length] by simp
  with t have l: "length (promises s) = length (submitted es)" by simp
  have u: "\<forall>h<length (promises s). stateOf (promises s ! h) = Unsettled"
  proof (intro allI impI)
    fix h assume "h < length (promises s)"
    then have "h < length (taskQueue s)" using arg_cong[OF p, of length] by simp
    with p have "promises s ! h = []" by (metis nth_replicate)
    then show "stateOf (promises s ! h) = Unsettled" by simp
  qed
  have a: "\<forall>t. addTask t s =
            (length (promises s),
             s \<lparr> promises := promises s @ [[]], taskId := taskId s + 1,
                 taskQueue := taskQueue s @
                   [\<lparr> id_t = taskId s + 1, task = t, handle = length (promises s),
                      status = Pending \<rparr>] \<rparr>)"
    using mc idle(3) by (simp add: addTask_def Let_def executeNext_def)
  from idle t q l u a show ?thesis by blast
qed

text \<open>The theorem at \<^verbatim>\<open>new ConcurrentScheduler(0)\<close> after two submissions.\<close>

theorem no_slots_no_dispatch_witness:
  "let S = \<lparr> maxConcurrent = 0, runningCount = 0,
       taskQueue = [\<lparr> id_t = 1, task = ''a'', handle = 0, status = Pending \<rparr>,
                    \<lparr> id_t = 2, task = ''b'', handle = 1, status = Pending \<rparr>],
       taskId = 2, promises = [[], []], dispatched = [] \<rparr> :: (string, nat, string) scheduler
   in (0::int) \<le> 0 \<and>
      run (constructor (Some 0)) [AddTask ''a'', AddTask ''b''] = Some S \<and>
      runningCount S = 0 \<and> dispatched S = [] \<and>
      map task (taskQueue S) = [''a'', ''b''] \<and>
      map status (taskQueue S) = [Pending, Pending] \<and>
      map stateOf (promises S) = [Unsettled, Unsettled]"
proof -
  let ?es = "[AddTask ''a'', AddTask ''b''] :: (string, nat, string) event list"
  let ?S = "\<lparr> maxConcurrent = 0, runningCount = 0,
       taskQueue = [\<lparr> id_t = 1, task = ''a'', handle = 0, status = Pending \<rparr>,
                    \<lparr> id_t = 2, task = ''b'', handle = 1, status = Pending \<rparr>],
       taskId = 2, promises = [[], []], dispatched = [] \<rparr> :: (string, nat, string) scheduler"
  have n: "(0::int) \<le> 0" by simp
  have r: "run (constructor (Some 0)) ?es = Some ?S"
    by (simp add: constructor_def addTask_def executeNext_def Let_def)
  from no_slots_no_dispatch[OF n r] have
    "runningCount ?S = 0" "dispatched ?S = []"
    "map task (taskQueue ?S) = submitted ?es"
    by blast+
  then have "runningCount ?S = 0" "dispatched ?S = []" "map task (taskQueue ?S) = [''a'', ''b'']"
    by simp_all
  with n r show ?thesis unfolding Let_def by simp
qed

end
